theory Spec2Isabelle
  imports Main "HOL-Library.Word"
begin

section \<open>Navigation history of Geany (src/navqueue.c)\<close>

text \<open>
  The navigation queue remembers positions (anchors) the user has visited and
  steps backward and forward through them. The file keeps three globals:
  the queue of anchors (head = newest), the queue position and a counter for
  anchor ids. Every anchor tags one unit of text in its document with its id
  through the navigation indicator of the Scintilla widget.
\<close>

subsection \<open>Data\<close>

text \<open>\<open>gint\<close> is a 32-bit integer; \<open>sint\<close> reads it as signed.\<close>

type_synonym gint = "32 word"

text \<open>
  \<open>NavigationAnchor\<close>: the file name (a C string, possibly \<open>NULL\<close>), the cached
  document pointer (\<open>None\<close> is \<open>NULL\<close>, \<open>Some d\<close> the address of a document
  slot), the indicator id and the cached position.
\<close>

record NavigationAnchor =
  file' :: "string option"
  doc :: "nat option"
  id' :: gint
  pos :: gint

text \<open>
  What the queue needs of a \<open>GeanyDocument\<close> that is open: its file name
  (\<open>NULL\<close> for an untitled document), the value of the navigation indicator at
  every position of its Scintilla widget (0 where nothing is tagged), and the
  caret position of the widget.
\<close>

record GeanyDocument =
  file_name :: "string option"
  indicator :: "gint \<Rightarrow> gint"
  current_position :: gint

text \<open>
  The documents live in slots whose addresses stay valid. A slot holds \<open>None\<close>
  when its document is closed (the struct is zeroed: \<open>is_valid\<close> is false, the
  file name and the editor are \<open>NULL\<close>). \<open>documents_len\<close> is the number of slots
  of the documents array and \<open>current_page\<close> the slot shown in the notebook.
\<close>

record world =
  documents :: "nat \<Rightarrow> GeanyDocument option"
  documents_len :: nat
  current_page :: "nat option"

text \<open>
  The globals of the file, the sensitivity last set on the two toolbar actions
  (\<open>navigation_buttons[0]\<close> is back, \<open>[1]\<close> is forward) and the documents the
  operations act on. \<open>nav_queue_pos\<close> is a \<open>guint\<close>; the code decrements it only
  when it is positive, increments it only below the queue length, and computes
  \<open>length - 1\<close> only for a non-empty queue, so it never wraps and is a \<open>nat\<close>
  here. \<open>counter\<close> wraps around as a 32-bit word.
\<close>

record navqueue =
  navigation_queue :: "NavigationAnchor list"
  nav_queue_pos :: nat
  counter :: gint
  nav_back :: bool
  nav_for :: bool
  env :: world

definition MAX_NAVQUEUE_LENGTH :: nat where
  "MAX_NAVQUEUE_LENGTH = 100"

subsection \<open>The collaborators outside the file\<close>

text \<open>
  Two functions of other modules are parameters of the model: where the range
  of the navigation indicator that contains a position ends
  (\<open>sci_indicator_end\<close>), and whether the editor accepts a position to go to
  (the result of \<open>editor_goto_pos\<close>).
\<close>

record ext =
  sci_indicator_end :: "GeanyDocument \<Rightarrow> gint \<Rightarrow> gint"
  goto_accepts :: "GeanyDocument \<Rightarrow> gint \<Rightarrow> bool"

text \<open>\<open>DOC_VALID(doc)\<close>: the pointer is not \<open>NULL\<close> and the slot is in use.\<close>

definition DOC_VALID :: "world \<Rightarrow> nat option \<Rightarrow> bool" where
  "DOC_VALID w dp = (case dp of None \<Rightarrow> False | Some d \<Rightarrow> documents w d \<noteq> None)"

text \<open>\<open>doc->file_name\<close>, which is \<open>NULL\<close> in a zeroed slot.\<close>

definition doc_file_name :: "world \<Rightarrow> nat \<Rightarrow> string option" where
  "doc_file_name w d = (case documents w d of None \<Rightarrow> None | Some D \<Rightarrow> file_name D)"

text \<open>\<open>utils_str_equal\<close>: two \<open>NULL\<close>s are equal, \<open>NULL\<close> differs from every string.\<close>

definition utils_str_equal :: "string option \<Rightarrow> string option \<Rightarrow> bool" where
  "utils_str_equal a b = (a = b)"

text \<open>
  Modelled from the spec: the document registry,
  \<open>find_document_by_identity(path) -> document_handle | none\<close>. The first open
  document of the documents array with this file name; \<open>NULL\<close> for no name.
\<close>

definition document_find_by_filename :: "world \<Rightarrow> string option \<Rightarrow> nat option" where
  "document_find_by_filename w f =
     (case f of None \<Rightarrow> None
      | Some n \<Rightarrow> List.find (\<lambda>i. case documents w i of None \<Rightarrow> False
                                 | Some D \<Rightarrow> file_name D = Some n) [0..<documents_len w])"

text \<open>
  Modelled from the spec: \<open>document_get_current\<close>, the document of the current
  page when it is valid, else \<open>NULL\<close>.
\<close>

definition document_get_current :: "world \<Rightarrow> nat option" where
  "document_get_current w =
     (case current_page w of None \<Rightarrow> None
      | Some d \<Rightarrow> if documents w d \<noteq> None then Some d else None)"

text \<open>
  Modelled from the spec: the marker substrate, \<open>value_at(offset)\<close>,
  \<open>tag_unit_range(offset, id)\<close> and \<open>clear_unit_range(offset)\<close> on one document.
\<close>

definition sci_indicator_value_at :: "GeanyDocument \<Rightarrow> gint \<Rightarrow> gint" where
  "sci_indicator_value_at D p = indicator D p"

definition sci_indicator_fill :: "GeanyDocument \<Rightarrow> gint \<Rightarrow> gint \<Rightarrow> GeanyDocument" where
  "sci_indicator_fill D p v = D\<lparr>indicator := (indicator D)(p := v)\<rparr>"

definition sci_indicator_clear :: "GeanyDocument \<Rightarrow> gint \<Rightarrow> GeanyDocument" where
  "sci_indicator_clear D p = D\<lparr>indicator := (indicator D)(p := 0)\<rparr>"

text \<open>
  Modelled from the spec: \<open>goto_offset(document_handle, offset) -> success\<close>.
  When the editor accepts the position, the caret of the document moves there
  and the document becomes the current page; otherwise nothing changes. A
  closed slot has no editor and the call fails.
\<close>

definition editor_goto_pos :: "ext \<Rightarrow> world \<Rightarrow> nat \<Rightarrow> gint \<Rightarrow> bool \<times> world" where
  "editor_goto_pos E w d p =
     (case documents w d of None \<Rightarrow> (False, w)
      | Some D \<Rightarrow>
          if goto_accepts E D p
          then (True, w\<lparr>documents := (documents w)(d \<mapsto> D\<lparr>current_position := p\<rparr>),
                        current_page := Some d\<rparr>)
          else (False, w))"

subsection \<open>Initialisation and the toolbar buttons\<close>

definition navqueue_init :: "world \<Rightarrow> navqueue" where
  "navqueue_init w =
     \<lparr>navigation_queue = [], nav_queue_pos = 0, counter = 0,
      nav_back = False, nav_for = False, env = w\<rparr>"

definition adjust_buttons :: "navqueue \<Rightarrow> navqueue" where
  "adjust_buttons s =
     (if length (navigation_queue s) < 2
      then s\<lparr>nav_back := False, nav_for := False\<rparr>
      else if nav_queue_pos s = 0
      then s\<lparr>nav_back := True, nav_for := False\<rparr>
      else (s\<lparr>nav_for := True\<rparr>)
             \<lparr>nav_back := (nav_queue_pos s < length (navigation_queue s) - 1)\<rparr>)"

subsection \<open>Anchors\<close>

text \<open>
  The loop of \<open>refresh_anchor\<close> over the ranges of the indicator:
  \<open>do { prev = pos; if (value_at(pos) == id) found; pos = end(pos); } while (pos > prev)\<close>.
  \<open>Some p\<close> is the position found, \<open>None\<close> leaving the loop. The comparison is
  between signed 32-bit integers.
\<close>

function scan_ranges :: "(gint \<Rightarrow> gint) \<Rightarrow> (gint \<Rightarrow> gint) \<Rightarrow> gint \<Rightarrow> gint \<Rightarrow> gint option" where
  "scan_ranges value_at end_of ident p =
     (if value_at p = ident then Some p
      else (let nxt = end_of p
            in if sint p < sint nxt then scan_ranges value_at end_of ident nxt else None))"
  by pat_completeness auto
termination
proof (relation "measure (\<lambda>(value_at, end_of, ident, p). nat (2 ^ 31 - sint p))")
  show "wf (measure (\<lambda>(value_at, end_of, ident, p). nat (2 ^ 31 - sint (p :: gint))))"
    by simp
next
  fix value_at end_of :: "gint \<Rightarrow> gint" and ident p nxt :: gint
  assume "nxt = end_of p" and lt: "sint p < sint nxt"
  have "sint nxt < 2 ^ 31"
    using sint_lt [of nxt] by simp
  with lt show "((value_at, end_of, ident, nxt), (value_at, end_of, ident, p))
      \<in> measure (\<lambda>(value_at, end_of, ident, p). nat (2 ^ 31 - sint p))"
    by simp
qed

declare scan_ranges.simps [simp del]

text \<open>
  \<open>refresh_anchor\<close>. The document pointer is looked up again when it is not
  valid or names another file. With no document or id 0 the anchor is left as
  it is. Otherwise the position is kept when the indicator there still has the
  id, else the ranges are scanned from 0: the position found is adopted, and
  when none is found the id becomes 0. (The branch for a closed slot after the
  lookup is never taken, see \<open>resolve_doc_valid\<close>: the C code would
  dereference a \<open>NULL\<close> editor there.)
\<close>

definition refresh_anchor :: "ext \<Rightarrow> world \<Rightarrow> NavigationAnchor \<Rightarrow> NavigationAnchor" where
  "refresh_anchor E w anchor =
     (let a = (if (case doc anchor of None \<Rightarrow> True
                   | Some d \<Rightarrow> \<not> DOC_VALID w (Some d)
                       \<or> \<not> utils_str_equal (doc_file_name w d) (file' anchor))
               then anchor\<lparr>doc := document_find_by_filename w (file' anchor)\<rparr>
               else anchor)
      in case doc a of None \<Rightarrow> a
         | Some d \<Rightarrow>
             if id' a = 0 then a
             else (case documents w d of None \<Rightarrow> a
                   | Some D \<Rightarrow>
                       if sci_indicator_value_at D (pos a) = id' a then a
                       else (case scan_ranges (sci_indicator_value_at D)
                                     (sci_indicator_end E D) (id' a) 0 of
                               Some p \<Rightarrow> a\<lparr>pos := p\<rparr>
                             | None \<Rightarrow> a\<lparr>id' := 0\<rparr>)))"

text \<open>
  \<open>clear_anchor\<close>: refresh, then clear the unit at the anchor's position when
  the indicator there has the anchor's id. The anchor itself is freed, so only
  the documents are returned. (As in \<open>refresh_anchor\<close>, a pointer that is set
  after the refresh points to an open document, so the branch for a closed
  slot is never taken.)
\<close>

definition clear_anchor :: "ext \<Rightarrow> world \<Rightarrow> NavigationAnchor \<Rightarrow> world" where
  "clear_anchor E w anchor =
     (let a = refresh_anchor E w anchor
      in case doc a of None \<Rightarrow> w
         | Some d \<Rightarrow>
             (case documents w d of None \<Rightarrow> w
              | Some D \<Rightarrow>
                  if sci_indicator_value_at D (pos a) = id' a
                  then w\<lparr>documents := (documents w)(d \<mapsto> sci_indicator_clear D (pos a))\<rparr>
                  else w))"

text \<open>
  \<open>set_anchor\<close>: the counter is incremented, the new anchor takes its value as
  id and the unit at \<open>pos\<close> of the document is tagged with it. \<open>None\<close> is the
  fault of reaching through the \<open>NULL\<close> editor of a closed slot.
\<close>

definition set_anchor ::
  "navqueue \<Rightarrow> nat \<Rightarrow> gint \<Rightarrow> (NavigationAnchor \<times> navqueue) option" where
  "set_anchor s d p =
     (case documents (env s) d of None \<Rightarrow> None
      | Some D \<Rightarrow>
          (let c = counter s + 1;
               anchor = \<lparr>file' = file_name D, doc = Some d, id' = c, pos = p\<rparr>;
               w = env s
           in Some (anchor,
                s\<lparr>counter := c,
                  env := w\<lparr>documents := (documents w)(d \<mapsto> sci_indicator_fill D p c)\<rparr>\<rparr>)))"

subsection \<open>Recording a position\<close>

text \<open>
  \<open>queue_pos_matches\<close>: the entry at \<open>queue_pos\<close>, when there is one and it has
  the file name of the document, is refreshed in place and compared with the
  position.
\<close>

definition queue_pos_matches :: "ext \<Rightarrow> navqueue \<Rightarrow> nat \<Rightarrow> nat \<Rightarrow> gint \<Rightarrow> bool \<times> navqueue" where
  "queue_pos_matches E s queue_pos d p =
     (if queue_pos < length (navigation_queue s)
      then (let anchor = navigation_queue s ! queue_pos
            in if utils_str_equal (file' anchor) (doc_file_name (env s) d)
               then (let a = refresh_anchor E (env s) anchor
                     in (pos a = p, s\<lparr>navigation_queue := (navigation_queue s)[queue_pos := a]\<rparr>))
               else (False, s))
      else (False, s))"

text \<open>
  \<open>while (nav_queue_pos > 0) { clear_anchor(g_queue_pop_head(queue)); nav_queue_pos--; }\<close>
  On an empty queue \<open>g_queue_pop_head\<close> returns \<open>NULL\<close>, which \<open>clear_anchor\<close>
  dereferences: the fault is \<open>None\<close>.
\<close>

fun pop_heads :: "ext \<Rightarrow> world \<Rightarrow> nat \<Rightarrow> NavigationAnchor list
    \<Rightarrow> (world \<times> NavigationAnchor list) option" where
  "pop_heads E w 0 q = Some (w, q)"
| "pop_heads E w (Suc k) [] = None"
| "pop_heads E w (Suc k) (a # q) = pop_heads E (clear_anchor E w a) k q"

text \<open>
  \<open>while (g_queue_get_length(queue) > MAX_NAVQUEUE_LENGTH) clear_anchor(g_queue_pop_tail(queue));\<close>
\<close>

function pop_tails :: "ext \<Rightarrow> world \<Rightarrow> NavigationAnchor list \<Rightarrow> world \<times> NavigationAnchor list" where
  "pop_tails E w q =
     (if length q > MAX_NAVQUEUE_LENGTH
      then pop_tails E (clear_anchor E w (last q)) (butlast q)
      else (w, q))"
  by pat_completeness auto
termination
  by (relation "measure (\<lambda>(E, w, q). length q)") (auto simp: MAX_NAVQUEUE_LENGTH_def)

declare pop_tails.simps [simp del]

definition navqueue_add_position :: "ext \<Rightarrow> navqueue \<Rightarrow> nat \<Rightarrow> gint \<Rightarrow> navqueue option" where
  "navqueue_add_position E s d p =
     (if doc_file_name (env s) d = None then Some s
      else (case queue_pos_matches E s (nav_queue_pos s) d p of
              (True, s1) \<Rightarrow> Some s1
            | (False, s1) \<Rightarrow>
                (case pop_heads E (env s1) (nav_queue_pos s1) (navigation_queue s1) of
                   None \<Rightarrow> None
                 | Some (w2, q2) \<Rightarrow>
                     (case set_anchor (s1\<lparr>navigation_queue := q2, nav_queue_pos := 0,
                                          env := w2\<rparr>) d p of
                        None \<Rightarrow> None
                      | Some (anchor, s3) \<Rightarrow>
                          (case pop_tails E (env s3) (anchor # navigation_queue s3) of
                             (w4, q4) \<Rightarrow>
                               Some (adjust_buttons
                                      (s3\<lparr>navigation_queue := q4, env := w4\<rparr>)))))))"

subsection \<open>Going back and forward\<close>

definition goto_anchor ::
  "ext \<Rightarrow> world \<Rightarrow> NavigationAnchor \<Rightarrow> bool \<times> NavigationAnchor \<times> world" where
  "goto_anchor E w anchor =
     (let a = refresh_anchor E w anchor
      in case doc a of None \<Rightarrow> (False, a, w)
         | Some d \<Rightarrow> (case editor_goto_pos E w d (pos a) of (ok, w') \<Rightarrow> (ok, a, w')))"

text \<open>
  The second half of \<open>navqueue_go_back\<close>, after the current position has been
  recorded: return when there is no older entry, else go to the entry at
  \<open>nav_queue_pos + 1\<close>; on failure that entry is popped and cleared.
\<close>

definition go_back_step :: "ext \<Rightarrow> navqueue \<Rightarrow> navqueue" where
  "go_back_step E s =
     (let q = navigation_queue s; n = nav_queue_pos s
      in if q = [] \<or> n \<ge> length q - 1 then s
         else (case goto_anchor E (env s) (q ! (n + 1)) of
                 (True, a, w') \<Rightarrow>
                   adjust_buttons (s\<lparr>navigation_queue := q[n + 1 := a],
                                     nav_queue_pos := n + 1, env := w'\<rparr>)
               | (False, a, w') \<Rightarrow>
                   adjust_buttons (s\<lparr>navigation_queue := take (n + 1) q @ drop (n + 2) q,
                                     env := clear_anchor E w' a\<rparr>)))"

text \<open>
  \<open>navqueue_go_back\<close>: with a current document, its caret position is recorded
  first (without one, a warning is logged); then the step.
\<close>

definition navqueue_go_back :: "ext \<Rightarrow> navqueue \<Rightarrow> navqueue option" where
  "navqueue_go_back E s =
     (case (case document_get_current (env s) of
              None \<Rightarrow> Some s
            | Some d \<Rightarrow>
                (case documents (env s) d of None \<Rightarrow> None
                 | Some D \<Rightarrow> navqueue_add_position E s d (current_position D))) of
        None \<Rightarrow> None
      | Some s1 \<Rightarrow> Some (go_back_step E s1))"

definition navqueue_go_forward :: "ext \<Rightarrow> navqueue \<Rightarrow> navqueue" where
  "navqueue_go_forward E s =
     (let q = navigation_queue s; n = nav_queue_pos s
      in if n < 1 \<or> n \<ge> length q then s
         else (case goto_anchor E (env s) (q ! (n - 1)) of
                 (True, a, w') \<Rightarrow>
                   adjust_buttons (s\<lparr>navigation_queue := q[n - 1 := a],
                                     nav_queue_pos := n - 1, env := w'\<rparr>)
               | (False, a, w') \<Rightarrow>
                   adjust_buttons (s\<lparr>navigation_queue := take (n - 1) q @ drop n q,
                                     env := clear_anchor E w' a\<rparr>)))"

subsection \<open>Removing a file\<close>

definition find_by_filename :: "NavigationAnchor \<Rightarrow> string option \<Rightarrow> int" where
  "find_by_filename a b = (if utils_str_equal (file' a) b then 0 else 1)"

text \<open>\<open>g_queue_find_custom\<close>: the first link on which the comparison returns 0.\<close>

fun g_queue_find_custom :: "NavigationAnchor list \<Rightarrow> string option \<Rightarrow> nat option" where
  "g_queue_find_custom [] b = None"
| "g_queue_find_custom (a # q) b =
     (if find_by_filename a b = 0 then Some 0
      else map_option Suc (g_queue_find_custom q b))"

text \<open>
  \<open>while ((match = g_queue_find_custom(...))) { clear_anchor(match->data); g_queue_delete_link(queue, match); }\<close>
\<close>

function remove_matches :: "ext \<Rightarrow> world \<Rightarrow> NavigationAnchor list \<Rightarrow> string option
    \<Rightarrow> world \<times> NavigationAnchor list" where
  "remove_matches E w q b =
     (case g_queue_find_custom q b of
        None \<Rightarrow> (w, q)
      | Some i \<Rightarrow> remove_matches E (clear_anchor E w (q ! i)) (take i q @ drop (Suc i) q) b)"
  by pat_completeness auto
termination
proof (relation "measure (\<lambda>(E, w, q, b). length q)")
  show "wf (measure (\<lambda>(E :: ext, w :: world, q :: NavigationAnchor list,
                       b :: string option). length q))"
    by simp
next
  fix E :: ext and w :: world and q :: "NavigationAnchor list" and b :: "string option"
    and i :: nat
  assume found: "g_queue_find_custom q b = Some i"
  have "\<And>j. g_queue_find_custom q b = Some j \<Longrightarrow> j < length q"
    by (induction q) (auto split: if_splits)
  from this [OF found] have "i < length q" .
  then show "((E, clear_anchor E w (q ! i), take i q @ drop (Suc i) q, b), (E, w, q, b))
      \<in> measure (\<lambda>(E, w, q, b). length q)"
    by simp
qed

declare remove_matches.simps [simp del]

definition navqueue_remove_file :: "ext \<Rightarrow> navqueue \<Rightarrow> string option \<Rightarrow> navqueue" where
  "navqueue_remove_file E s filename =
     (if filename = None then s
      else (case remove_matches E (env s) (navigation_queue s) filename of
              (w', q') \<Rightarrow>
                (let s1 = s\<lparr>navigation_queue := q', env := w'\<rparr>;
                     s2 = (if nav_queue_pos s1 \<ge> length (navigation_queue s1)
                           then s1\<lparr>nav_queue_pos := 0\<rparr> else s1)
                 in adjust_buttons s2)))"

subsection \<open>Running the operations\<close>

text \<open>
  The public operations, and a step of the surroundings: the user edits, opens,
  closes or renames documents, which replaces the documents and leaves the
  queue alone.
\<close>

datatype request =
  Record nat gint
| Back
| Forward
| Remove "string option"
| Edit world

fun perform :: "ext \<Rightarrow> navqueue \<Rightarrow> request \<Rightarrow> navqueue option" where
  "perform E s (Record d p) = navqueue_add_position E s d p"
| "perform E s Back = navqueue_go_back E s"
| "perform E s Forward = Some (navqueue_go_forward E s)"
| "perform E s (Remove f) = Some (navqueue_remove_file E s f)"
| "perform E s (Edit w) = Some (s\<lparr>env := w\<rparr>)"

fun run :: "ext \<Rightarrow> navqueue \<Rightarrow> request list \<Rightarrow> navqueue option" where
  "run E s [] = Some s"
| "run E s (r # rs) = (case perform E s r of None \<Rightarrow> None | Some s' \<Rightarrow> run E s' rs)"

subsection \<open>Notions used in the statements\<close>

text \<open>
  The two halves of \<open>refresh_anchor\<close>: the document pointer after the lookup,
  and the anchor after its position has been looked for in an open document.
\<close>

definition resolve_doc :: "world \<Rightarrow> NavigationAnchor \<Rightarrow> nat option" where
  "resolve_doc w anchor =
     (if (case doc anchor of None \<Rightarrow> True
          | Some d \<Rightarrow> \<not> DOC_VALID w (Some d)
              \<or> \<not> utils_str_equal (doc_file_name w d) (file' anchor))
      then document_find_by_filename w (file' anchor) else doc anchor)"

definition relocate :: "ext \<Rightarrow> GeanyDocument \<Rightarrow> NavigationAnchor \<Rightarrow> NavigationAnchor" where
  "relocate E D a =
     (if id' a = 0 then a
      else if indicator D (pos a) = id' a then a
      else (case scan_ranges (indicator D) (sci_indicator_end E D) (id' a) 0 of
              Some p \<Rightarrow> a\<lparr>pos := p\<rparr> | None \<Rightarrow> a\<lparr>id' := 0\<rparr>))"

text \<open>Two states of the documents that differ at most in indicator values.\<close>

definition same_files :: "world \<Rightarrow> world \<Rightarrow> bool" where
  "same_files w w' =
     (documents_len w' = documents_len w \<and> current_page w' = current_page w \<and>
      (\<forall>d. case documents w d of
              None \<Rightarrow> documents w' d = None
            | Some D \<Rightarrow> (\<exists>D'. documents w' d = Some D' \<and> file_name D' = file_name D
                            \<and> current_position D' = current_position D)))"


text \<open>The scan of \<open>refresh_anchor\<close> with a bound on the number of iterations;
  the outer \<open>None\<close> is running out of it.\<close>

fun scan_ranges_fuel ::
  "nat \<Rightarrow> (gint \<Rightarrow> gint) \<Rightarrow> (gint \<Rightarrow> gint) \<Rightarrow> gint \<Rightarrow> gint \<Rightarrow> gint option option" where
  "scan_ranges_fuel 0 value_at end_of ident p = None"
| "scan_ranges_fuel (Suc n) value_at end_of ident p =
     (if value_at p = ident then Some (Some p)
      else (let nxt = end_of p
            in if sint p < sint nxt then scan_ranges_fuel n value_at end_of ident nxt
               else Some None))"

text \<open>What the toolbar buttons should show for the queue and its position.\<close>

definition buttons_exact :: "navqueue \<Rightarrow> bool" where
  "buttons_exact s =
     (nav_back s = (length (navigation_queue s) \<ge> 2
                     \<and> nav_queue_pos s < length (navigation_queue s) - 1) \<and>
      nav_for s = (length (navigation_queue s) \<ge> 2 \<and> nav_queue_pos s > 0))"

text \<open>The editor caret: the current page and the caret position of every document.\<close>

definition caret :: "world \<Rightarrow> nat option \<times> (nat \<Rightarrow> gint option)" where
  "caret w = (current_page w, \<lambda>d. map_option current_position (documents w d))"

text \<open>
  What holds of the queue between the operations: the position is at most the
  length, the length is at most the maximum, and the buttons show the queue.
\<close>

definition queue_inv :: "navqueue \<Rightarrow> bool" where
  "queue_inv s =
     (nav_queue_pos s \<le> length (navigation_queue s) \<and>
      length (navigation_queue s) \<le> MAX_NAVQUEUE_LENGTH \<and> buttons_exact s)"

text \<open>Every id in the queue has been given out by the counter, read as an
  unsigned number.\<close>

definition ids_issued :: "navqueue \<Rightarrow> bool" where
  "ids_issued s = (\<forall>a \<in> set (navigation_queue s). unat (id' a) \<le> unat (counter s))"

subsection \<open>A small session for the examples\<close>

definition doc_a :: GeanyDocument where
  "doc_a = \<lparr>file_name = Some ''a.c'', indicator = (\<lambda>p. 0), current_position = 0\<rparr>"

definition doc_b :: GeanyDocument where
  "doc_b = \<lparr>file_name = Some ''b.c'', indicator = (\<lambda>p. 0), current_position = 5\<rparr>"

definition two_docs :: world where
  "two_docs = \<lparr>documents = (\<lambda>d. None)(0 \<mapsto> doc_a, 1 \<mapsto> doc_b), documents_len = 2,
               current_page = Some 1\<rparr>"

text \<open>An indicator whose ranges never advance, and an editor that accepts the
  positions that are not negative.\<close>

definition plain_ext :: ext where
  "plain_ext = \<lparr>sci_indicator_end = (\<lambda>D p. p), goto_accepts = (\<lambda>D p. 0 \<le> sint p)\<rparr>"

definition anchor_a :: NavigationAnchor where
  "anchor_a = \<lparr>file' = Some ''a.c'', doc = Some 0, id' = 1, pos = 10\<rparr>"

definition anchor_a2 :: NavigationAnchor where
  "anchor_a2 = \<lparr>file' = Some ''a.c'', doc = Some 0, id' = 2, pos = 20\<rparr>"

definition anchor_b :: NavigationAnchor where
  "anchor_b = \<lparr>file' = Some ''b.c'', doc = Some 1, id' = 2, pos = 5\<rparr>"

text \<open>The first document with the tags of \<open>anchor_a\<close> and \<open>anchor_a2\<close> set.\<close>

definition tagged_docs :: world where
  "tagged_docs =
     \<lparr>documents = (\<lambda>d. None)(0 \<mapsto> doc_a\<lparr>indicator := (\<lambda>p. 0)(10 := 1, 20 := 2)\<rparr>, 1 \<mapsto> doc_b),
      documents_len = 2, current_page = Some 1\<rparr>"

text \<open>Both documents with one tag each, and the queue that recorded them:
  position 10 of \<open>a.c\<close> first, then position 5 of \<open>b.c\<close>.\<close>

definition session_docs :: world where
  "session_docs =
     \<lparr>documents = (\<lambda>d. None)(0 \<mapsto> doc_a\<lparr>indicator := (\<lambda>p. 0)(10 := 1)\<rparr>,
                                1 \<mapsto> doc_b\<lparr>indicator := (\<lambda>p. 0)(5 := 2)\<rparr>),
      documents_len = 2, current_page = Some 1\<rparr>"

definition two_entries :: navqueue where
  "two_entries =
     \<lparr>navigation_queue = [anchor_b, anchor_a], nav_queue_pos = 0, counter = 2,
      nav_back = True, nav_for = False, env = session_docs\<rparr>"

text \<open>The same queue after going back once: the caret is in \<open>a.c\<close>.\<close>

definition stepped_back :: navqueue where
  "stepped_back =
     \<lparr>navigation_queue = [anchor_b, anchor_a], nav_queue_pos = 1, counter = 2,
      nav_back = False, nav_for = True,
      env = session_docs\<lparr>current_page := Some 0\<rparr>\<rparr>"

text \<open>The documents after going back, with \<open>b.c\<close> saved under the name \<open>c.c\<close>.\<close>

definition renamed_docs :: world where
  "renamed_docs =
     \<lparr>documents = (\<lambda>d. None)
        (0 \<mapsto> doc_a\<lparr>indicator := (\<lambda>p. 0)(10 := 1), current_position := 10\<rparr>,
         1 \<mapsto> doc_b\<lparr>file_name := Some ''c.c'', indicator := (\<lambda>p. 0)(5 := 2)\<rparr>),
      documents_len = 2, current_page = Some 0\<rparr>"

text \<open>An anchor of \<open>a.c\<close> whose tag is lost (id 0), in documents where \<open>a.c\<close>
  has no tag, and an anchor with id 0 of a file that is not open.\<close>

definition anchor_lost :: NavigationAnchor where
  "anchor_lost = \<lparr>file' = Some ''a.c'', doc = Some 0, id' = 0, pos = 10\<rparr>"

definition anchor_gone :: NavigationAnchor where
  "anchor_gone = \<lparr>file' = Some ''z.c'', doc = None, id' = 0, pos = 3\<rparr>"

definition lost_docs :: world where
  "lost_docs =
     \<lparr>documents = (\<lambda>d. None)(0 \<mapsto> doc_a, 1 \<mapsto> doc_b\<lparr>indicator := (\<lambda>p. 0)(5 := 2)\<rparr>),
      documents_len = 2, current_page = Some 1\<rparr>"

definition lost_entries :: navqueue where
  "lost_entries =
     \<lparr>navigation_queue = [anchor_b, anchor_lost], nav_queue_pos = 0, counter = 2,
      nav_back = True, nav_for = False, env = lost_docs\<rparr>"

definition gone_entries :: navqueue where
  "gone_entries =
     \<lparr>navigation_queue = [anchor_gone, anchor_a], nav_queue_pos = 1, counter = 2,
      nav_back = False, nav_for = True, env = session_docs\<lparr>current_page := Some 0\<rparr>\<rparr>"

section \<open>Basic facts\<close>

lemma sci_indicator_value_at_eta: "sci_indicator_value_at D = indicator D"
  by (rule ext) (simp add: sci_indicator_value_at_def)

lemma refresh_anchor_unfold:
  "refresh_anchor E w a =
     (case resolve_doc w a of None \<Rightarrow> a\<lparr>doc := None\<rparr>
      | Some d \<Rightarrow> (case documents w d of None \<Rightarrow> a\<lparr>doc := Some d\<rparr>
                   | Some D \<Rightarrow> relocate E D (a\<lparr>doc := Some d\<rparr>)))"
  unfolding refresh_anchor_def resolve_doc_def relocate_def Let_def sci_indicator_value_at_eta
  by (simp split: option.splits)

lemma find_valid:
  "document_find_by_filename w f = Some d \<Longrightarrow> \<exists>D. documents w d = Some D \<and> file_name D = f"
  by (auto simp: document_find_by_filename_def find_Some_iff split: option.splits)

lemma resolve_doc_valid:
  "resolve_doc w a = Some d \<Longrightarrow> \<exists>D. documents w d = Some D \<and> file_name D = file' a"
  by (auto simp: resolve_doc_def DOC_VALID_def utils_str_equal_def doc_file_name_def
      split: option.splits if_splits dest: find_valid)

lemma resolve_doc_idem: "resolve_doc w (a\<lparr>doc := resolve_doc w a\<rparr>) = resolve_doc w a"
  by (auto simp: resolve_doc_def DOC_VALID_def utils_str_equal_def doc_file_name_def
      split: option.splits if_splits dest: find_valid)

lemma resolve_doc_cong:
  "file' b = file' a \<Longrightarrow> doc b = doc a \<Longrightarrow> resolve_doc w b = resolve_doc w a"
  by (cases "doc a") (simp_all add: resolve_doc_def)

lemma scan_ranges_Some: "scan_ranges va en i p = Some r \<Longrightarrow> va r = i"
proof (induction va en i p rule: scan_ranges.induct)
  case (1 va en i p)
  then show ?case
    by (subst (asm) (2) scan_ranges.simps) (auto simp: Let_def split: if_splits)
qed

lemma relocate_file [simp]: "file' (relocate E D a) = file' a"
  by (simp add: relocate_def split: option.splits)

lemma relocate_doc [simp]: "doc (relocate E D a) = doc a"
  by (simp add: relocate_def split: option.splits)

lemma relocate_id: "id' (relocate E D a) = id' a \<or> id' (relocate E D a) = 0"
  by (simp add: relocate_def split: option.splits)

lemma relocate_zero: "id' a = 0 \<Longrightarrow> relocate E D a = a"
  by (simp add: relocate_def)

lemma relocate_post:
  "id' (relocate E D a) \<noteq> 0 \<Longrightarrow> indicator D (pos (relocate E D a)) = id' (relocate E D a)"
  by (auto simp: relocate_def split: option.splits if_splits dest: scan_ranges_Some)

lemma relocate_lost: "id' (relocate E D a) = 0 \<Longrightarrow> pos (relocate E D a) = pos a"
  by (auto simp: relocate_def split: option.splits if_splits)

lemma relocate_idem: "relocate E D (relocate E D a) = relocate E D a"
proof (cases "id' (relocate E D a) = 0")
  case True
  then show ?thesis by (simp add: relocate_zero)
next
  case False
  then have "indicator D (pos (relocate E D a)) = id' (relocate E D a)"
    by (rule relocate_post)
  then show ?thesis
    by (subst relocate_def) simp
qed

lemma refresh_anchor_file [simp]: "file' (refresh_anchor E w a) = file' a"
  by (simp add: refresh_anchor_unfold split: option.splits)

lemma refresh_anchor_doc [simp]: "doc (refresh_anchor E w a) = resolve_doc w a"
  by (simp add: refresh_anchor_unfold split: option.splits)

lemma refresh_anchor_id: "id' (refresh_anchor E w a) = id' a \<or> id' (refresh_anchor E w a) = 0"
proof (cases "resolve_doc w a")
  case None
  then show ?thesis by (simp add: refresh_anchor_unfold)
next
  case (Some d)
  show ?thesis
  proof (cases "documents w d")
    case None
    with Some show ?thesis by (simp add: refresh_anchor_unfold)
  next
    case (Some D)
    with \<open>resolve_doc w a = Some d\<close> relocate_id [of E D "a\<lparr>doc := Some d\<rparr>"]
    show ?thesis by (simp add: refresh_anchor_unfold)
  qed
qed

lemma refresh_anchor_zero:
  "id' a = 0 \<Longrightarrow> refresh_anchor E w a = a\<lparr>doc := resolve_doc w a\<rparr>"
  by (simp add: refresh_anchor_unfold relocate_zero split: option.splits)

lemma refresh_anchor_post:
  "resolve_doc w a = Some d \<Longrightarrow> documents w d = Some D \<Longrightarrow>
   id' (refresh_anchor E w a) \<noteq> 0 \<Longrightarrow>
   indicator D (pos (refresh_anchor E w a)) = id' (refresh_anchor E w a)"
  using relocate_post [of E D "a\<lparr>doc := Some d\<rparr>"]
  by (simp add: refresh_anchor_unfold)

lemma refresh_anchor_idem:
  "refresh_anchor E w (refresh_anchor E w a) = refresh_anchor E w a"
proof -
  let ?r = "refresh_anchor E w a"
  have res: "resolve_doc w ?r = resolve_doc w a"
    using resolve_doc_idem [of w a]
    by (simp add: resolve_doc_cong [of ?r "a\<lparr>doc := resolve_doc w a\<rparr>"])
  show ?thesis
  proof (cases "resolve_doc w a")
    case None
    then show ?thesis
      using res by (simp add: refresh_anchor_unfold [of E w ?r])
  next
    case (Some d)
    then obtain D where D: "documents w d = Some D"
      using resolve_doc_valid by blast
    have r: "?r = relocate E D (a\<lparr>doc := Some d\<rparr>)"
      by (simp add: refresh_anchor_unfold Some D)
    have "refresh_anchor E w ?r = relocate E D (?r\<lparr>doc := Some d\<rparr>)"
      using res by (simp add: refresh_anchor_unfold [of E w ?r] Some D)
    also have "?r\<lparr>doc := Some d\<rparr> = ?r"
      by (simp add: r)
    also have "relocate E D ?r = ?r"
      by (simp add: r relocate_idem)
    finally show ?thesis .
  qed
qed

lemma same_files_refl [simp]: "same_files w w"
  by (simp add: same_files_def split: option.splits)

lemma same_files_trans: "same_files w w' \<Longrightarrow> same_files w' w'' \<Longrightarrow> same_files w w''"
  unfolding same_files_def
  apply (intro conjI allI)
    apply simp
   apply simp
  subgoal for d
    apply (erule conjE)+
    apply (erule_tac x = d in allE)+
    apply (auto split: option.splits)
    done
  done

lemma same_files_None: "same_files w w' \<Longrightarrow> (documents w' d = None) = (documents w d = None)"
  unfolding same_files_def
  apply (erule conjE)+
  apply (erule_tac x = d in allE)
  apply (auto split: option.splits)
  done

lemma same_files_Some:
  "same_files w w' \<Longrightarrow> documents w d = Some D \<Longrightarrow>
   \<exists>D'. documents w' d = Some D' \<and> file_name D' = file_name D
        \<and> current_position D' = current_position D"
  unfolding same_files_def
  apply (erule conjE)+
  apply (erule_tac x = d in allE)
  apply (auto split: option.splits)
  done

lemma same_files_doc_file_name: "same_files w w' \<Longrightarrow> doc_file_name w' d = doc_file_name w d"
  unfolding same_files_def doc_file_name_def
  apply (erule conjE)+
  apply (erule_tac x = d in allE)
  apply (auto split: option.splits)
  done

lemma same_files_upd:
  "documents w d = Some D \<Longrightarrow> file_name D' = file_name D \<Longrightarrow>
   current_position D' = current_position D \<Longrightarrow>
   same_files w (w\<lparr>documents := (documents w)(d \<mapsto> D')\<rparr>)"
  by (auto simp: same_files_def split: option.splits)

lemma clear_anchor_cases:
  "clear_anchor E w a = w \<or>
   (\<exists>d D. resolve_doc w a = Some d \<and> documents w d = Some D \<and>
      indicator D (pos (refresh_anchor E w a)) = id' (refresh_anchor E w a) \<and>
      clear_anchor E w a =
        w\<lparr>documents := (documents w)(d \<mapsto> sci_indicator_clear D (pos (refresh_anchor E w a)))\<rparr>)"
  by (simp add: clear_anchor_def Let_def sci_indicator_value_at_def split: option.splits)

lemma clear_anchor_same_files: "same_files w (clear_anchor E w a)"
  using clear_anchor_cases [of E w a]
  by (auto simp: sci_indicator_clear_def intro!: same_files_upd)

lemma clear_anchor_keeps:
  assumes "documents w d = Some D" and "indicator D p \<noteq> id' a"
  shows "\<exists>D'. documents (clear_anchor E w a) d = Some D' \<and> indicator D' p = indicator D p"
proof -
  let ?r = "refresh_anchor E w a"
  from clear_anchor_cases [of E w a] show ?thesis
  proof
    assume "clear_anchor E w a = w"
    with assms show ?thesis by simp
  next
    assume "\<exists>d D. resolve_doc w a = Some d \<and> documents w d = Some D \<and>
      indicator D (pos ?r) = id' ?r \<and>
      clear_anchor E w a = w\<lparr>documents := (documents w)(d \<mapsto> sci_indicator_clear D (pos ?r))\<rparr>"
    then obtain d0 D0 where D0: "documents w d0 = Some D0"
      and tag: "indicator D0 (pos ?r) = id' ?r"
      and eq: "clear_anchor E w a = w\<lparr>documents := (documents w)(d0 \<mapsto> sci_indicator_clear D0 (pos ?r))\<rparr>"
      by blast
    show ?thesis
    proof (cases "d = d0 \<and> p = pos ?r")
      case True
      with assms D0 tag have "id' ?r \<noteq> id' a" by auto
      with refresh_anchor_id [of E w a] have "id' ?r = 0" by simp
      with True assms D0 tag eq show ?thesis by (simp add: sci_indicator_clear_def)
    next
      case False
      with assms D0 eq show ?thesis by (auto simp: sci_indicator_clear_def)
    qed
  qed
qed

lemma clear_anchor_zero_or_same:
  assumes "documents w d = Some D"
  shows "\<exists>D'. documents (clear_anchor E w a) d = Some D' \<and>
           (indicator D' p = indicator D p \<or> indicator D' p = 0)"
  using clear_anchor_cases [of E w a] assms
  by (auto simp: sci_indicator_clear_def)

lemma pop_heads_Some:
  "k \<le> length q \<Longrightarrow> \<exists>w'. pop_heads E w k q = Some (w', drop k q) \<and> same_files w w'"
proof (induction E w k q rule: pop_heads.induct)
  case (1 E w q)
  then show ?case by simp
next
  case (2 E w k)
  then show ?case by simp
next
  case (3 E w k a q)
  then obtain w' where "pop_heads E (clear_anchor E w a) k q = Some (w', drop k q)"
    and "same_files (clear_anchor E w a) w'"
    by auto
  with clear_anchor_same_files [of w E a] show ?case
    by (auto intro: same_files_trans)
qed

lemma pop_heads_None: "length q < k \<Longrightarrow> pop_heads E w k q = None"
  by (induction E w k q rule: pop_heads.induct) auto

lemma pop_tails_result:
  "\<exists>w'. pop_tails E w q = (w', take MAX_NAVQUEUE_LENGTH q) \<and> same_files w w'"
proof (induction E w q rule: pop_tails.induct)
  case (1 E w q)
  show ?case
  proof (cases "length q > MAX_NAVQUEUE_LENGTH")
    case True
    with 1 obtain w' where
      "pop_tails E (clear_anchor E w (last q)) (butlast q) = (w', take MAX_NAVQUEUE_LENGTH (butlast q))"
      and "same_files (clear_anchor E w (last q)) w'"
      by blast
    with True clear_anchor_same_files [of w E "last q"] show ?thesis
      by (subst pop_tails.simps) (auto simp: take_butlast intro: same_files_trans)
  next
    case False
    then show ?thesis
      by (subst pop_tails.simps) simp
  qed
qed

lemma pop_tails_keeps:
  "documents w d = Some D \<Longrightarrow>
   indicator D p \<notin> id' ` set (drop MAX_NAVQUEUE_LENGTH q) \<Longrightarrow>
   \<exists>D'. documents (fst (pop_tails E w q)) d = Some D' \<and> indicator D' p = indicator D p"
proof (induction E w q arbitrary: D rule: pop_tails.induct)
  case (1 E w q)
  show ?case
  proof (cases "length q > MAX_NAVQUEUE_LENGTH")
    case True
    then have "drop MAX_NAVQUEUE_LENGTH q \<noteq> []" by simp
    then have "last (drop MAX_NAVQUEUE_LENGTH q) \<in> set (drop MAX_NAVQUEUE_LENGTH q)"
      by (rule last_in_set)
    with True have "last q \<in> set (drop MAX_NAVQUEUE_LENGTH q)"
      by (simp add: last_drop)
    with 1(3) have "indicator D p \<noteq> id' (last q)" by auto
    from clear_anchor_keeps [OF 1(2) this, of E]
    obtain D1 where D1: "documents (clear_anchor E w (last q)) d = Some D1"
      and eq: "indicator D1 p = indicator D p" by blast
    have "indicator D1 p \<notin> id' ` set (drop MAX_NAVQUEUE_LENGTH (butlast q))"
      using 1(3) eq by (auto simp: drop_butlast dest: in_set_butlastD)
    from 1(1) [OF True D1 this] eq True show ?thesis
      by (subst pop_tails.simps) simp
  next
    case False
    with 1(2) show ?thesis
      by (subst pop_tails.simps) simp
  qed
qed

lemma adjust_buttons_fields [simp]:
  "navigation_queue (adjust_buttons s) = navigation_queue s"
  "nav_queue_pos (adjust_buttons s) = nav_queue_pos s"
  "counter (adjust_buttons s) = counter s"
  "env (adjust_buttons s) = env s"
  by (simp_all add: adjust_buttons_def)

lemma adjust_buttons_buttons:
  "nav_back (adjust_buttons s) = (length (navigation_queue s) \<ge> 2
       \<and> nav_queue_pos s < length (navigation_queue s) - 1)"
  "nav_for (adjust_buttons s) = (length (navigation_queue s) \<ge> 2 \<and> nav_queue_pos s > 0)"
  by (auto simp: adjust_buttons_def)

lemma buttons_exact_adjust [simp]: "buttons_exact (adjust_buttons s)"
  by (simp add: buttons_exact_def adjust_buttons_buttons)

lemma buttons_exact_cong:
  "length (navigation_queue s') = length (navigation_queue s) \<Longrightarrow>
   nav_queue_pos s' = nav_queue_pos s \<Longrightarrow> nav_back s' = nav_back s \<Longrightarrow>
   nav_for s' = nav_for s \<Longrightarrow> buttons_exact s' = buttons_exact s"
  by (simp add: buttons_exact_def)

lemma queue_pos_matches_cases:
  "queue_pos_matches E s k d p = (False, s) \<or>
   (k < length (navigation_queue s) \<and>
    file' (navigation_queue s ! k) = doc_file_name (env s) d \<and>
    queue_pos_matches E s k d p =
      (pos (refresh_anchor E (env s) (navigation_queue s ! k)) = p,
       s\<lparr>navigation_queue :=
           (navigation_queue s)[k := refresh_anchor E (env s) (navigation_queue s ! k)]\<rparr>))"
  by (simp add: queue_pos_matches_def Let_def utils_str_equal_def)

lemma queue_pos_matches_fields:
  assumes "queue_pos_matches E s k d p = (m, s1)"
  shows "length (navigation_queue s1) = length (navigation_queue s)"
    and "nav_queue_pos s1 = nav_queue_pos s" and "counter s1 = counter s"
    and "env s1 = env s" and "nav_back s1 = nav_back s" and "nav_for s1 = nav_for s"
    and "map file' (navigation_queue s1) = map file' (navigation_queue s)"
    and "drop (Suc k) (navigation_queue s1) = drop (Suc k) (navigation_queue s)"
    and "take k (navigation_queue s1) = take k (navigation_queue s)"
  using queue_pos_matches_cases [of E s k d p] assms
  by (auto simp: map_update list_update_same_conv)

lemma set_anchor_Some:
  assumes "documents (env s) d = Some D"
  shows "set_anchor s d p =
    Some (\<lparr>file' = file_name D, doc = Some d, id' = counter s + 1, pos = p\<rparr>,
          s\<lparr>counter := counter s + 1,
            env := (env s)\<lparr>documents := (documents (env s))(d \<mapsto>
                      sci_indicator_fill D p (counter s + 1))\<rparr>\<rparr>)"
  using assms by (simp add: set_anchor_def Let_def)

lemma add_position_no_file:
  "doc_file_name (env s) d = None \<Longrightarrow> navqueue_add_position E s d p = Some s"
  by (simp add: navqueue_add_position_def)

lemma add_position_match:
  "doc_file_name (env s) d \<noteq> None \<Longrightarrow>
   queue_pos_matches E s (nav_queue_pos s) d p = (True, s1) \<Longrightarrow>
   navqueue_add_position E s d p = Some s1"
  by (auto simp: navqueue_add_position_def)

lemma add_position_push:
  assumes f: "doc_file_name (env s) d = Some f"
    and m: "queue_pos_matches E s (nav_queue_pos s) d p = (False, s1)"
    and k: "nav_queue_pos s \<le> length (navigation_queue s)"
  shows "\<exists>s'. navqueue_add_position E s d p = Some s' \<and>
           navigation_queue s' =
             take MAX_NAVQUEUE_LENGTH
               (\<lparr>file' = Some f, doc = Some d, id' = counter s + 1, pos = p\<rparr>
                # drop (nav_queue_pos s) (navigation_queue s1)) \<and>
           nav_queue_pos s' = 0 \<and> counter s' = counter s + 1 \<and>
           buttons_exact s' \<and> same_files (env s) (env s') \<and>
           (counter s + 1 \<notin> id' ` set (navigation_queue s1) \<longrightarrow>
              (\<exists>D'. documents (env s') d = Some D' \<and> indicator D' p = counter s + 1))"
proof -
  note m1 = queue_pos_matches_fields [OF m]
  from k m1 have "nav_queue_pos s1 \<le> length (navigation_queue s1)" by simp
  from pop_heads_Some [OF this, of E "env s1"] obtain w2 where
    ph: "pop_heads E (env s1) (nav_queue_pos s1) (navigation_queue s1)
           = Some (w2, drop (nav_queue_pos s1) (navigation_queue s1))"
    and sf2: "same_files (env s1) w2" by blast
  from f obtain D where D: "documents (env s) d = Some D" and fD: "file_name D = Some f"
    by (auto simp: doc_file_name_def split: option.splits)
  with sf2 m1 obtain D2 where D2: "documents w2 d = Some D2" and fD2: "file_name D2 = Some f"
    and cD2: "current_position D2 = current_position D"
    using same_files_Some [of "env s" w2 d D] by auto
  let ?s2 = "s1\<lparr>navigation_queue := drop (nav_queue_pos s1) (navigation_queue s1),
                nav_queue_pos := 0, env := w2\<rparr>"
  let ?a = "\<lparr>file' = Some f, doc = Some d, id' = counter s + 1, pos = p\<rparr>"
  let ?w3 = "w2\<lparr>documents := (documents w2)(d \<mapsto> sci_indicator_fill D2 p (counter s + 1))\<rparr>"
  let ?s3 = "?s2\<lparr>counter := counter s + 1, env := ?w3\<rparr>"
  have sa: "set_anchor ?s2 d p = Some (?a, ?s3)"
    using set_anchor_Some [of ?s2 d D2 p] D2 fD2 m1 by simp
  have sf3: "same_files w2 ?w3"
    using D2 by (intro same_files_upd) (simp_all add: sci_indicator_fill_def)
  from pop_tails_result [of E ?w3 "?a # drop (nav_queue_pos s1) (navigation_queue s1)"]
  obtain w4 where pt: "pop_tails E ?w3 (?a # drop (nav_queue_pos s1) (navigation_queue s1))
        = (w4, take MAX_NAVQUEUE_LENGTH (?a # drop (nav_queue_pos s1) (navigation_queue s1)))"
    and sf4: "same_files ?w3 w4" by blast
  have sf: "same_files (env s) w4"
    using sf2 sf3 sf4 m1 by (auto intro: same_files_trans)
  have "navqueue_add_position E s d p =
      Some (adjust_buttons (?s3\<lparr>navigation_queue :=
          take MAX_NAVQUEUE_LENGTH (?a # drop (nav_queue_pos s1) (navigation_queue s1)),
          env := w4\<rparr>))"
    using f m ph sa pt by (simp add: navqueue_add_position_def)
  moreover have "\<exists>D'. documents w4 d = Some D' \<and> indicator D' p = counter s + 1"
    if fresh: "counter s + 1 \<notin> id' ` set (navigation_queue s1)"
  proof -
    have D3: "documents ?w3 d = Some (sci_indicator_fill D2 p (counter s + 1))"
      by simp
    have tag: "indicator (sci_indicator_fill D2 p (counter s + 1)) p = counter s + 1"
      by (simp add: sci_indicator_fill_def)
    have "set (drop MAX_NAVQUEUE_LENGTH (?a # drop (nav_queue_pos s1) (navigation_queue s1)))
        \<subseteq> set (navigation_queue s1)"
      using set_drop_subset [of "MAX_NAVQUEUE_LENGTH - 1"
          "drop (nav_queue_pos s1) (navigation_queue s1)"]
        set_drop_subset [of "nav_queue_pos s1" "navigation_queue s1"]
      by (simp add: MAX_NAVQUEUE_LENGTH_def drop_Cons')
    with fresh tag have "indicator (sci_indicator_fill D2 p (counter s + 1)) p
        \<notin> id' ` set (drop MAX_NAVQUEUE_LENGTH (?a # drop (nav_queue_pos s1) (navigation_queue s1)))"
      by auto
    from pop_tails_keeps [OF D3 this, of E] pt tag show ?thesis by simp
  qed
  ultimately show ?thesis
    using sf m1 by simp
qed

section \<open>The scan of refresh_anchor\<close>

lemma scan_ranges_fuel_enough:
  "nat (2 ^ 31 - sint p) \<le> n \<Longrightarrow>
   scan_ranges_fuel n value_at end_of ident p = Some (scan_ranges value_at end_of ident p)"
proof (induction n arbitrary: p)
  case 0
  have "sint p < 2 ^ 31" using sint_lt [of p] by simp
  with 0 show ?case by simp
next
  case (Suc n)
  show ?case
  proof (cases "value_at p = ident")
    case True
    then show ?thesis by (simp add: scan_ranges.simps [of value_at end_of ident p])
  next
    case False
    show ?thesis
    proof (cases "sint p < sint (end_of p)")
      case True
      have "sint (end_of p) < 2 ^ 31" using sint_lt [of "end_of p"] by simp
      with True Suc.prems have "nat (2 ^ 31 - sint (end_of p)) \<le> n" by simp
      from Suc.IH [OF this] True False show ?thesis
        by (simp add: scan_ranges.simps [of value_at end_of ident p])
    next
      case False
      with \<open>value_at p \<noteq> ident\<close> show ?thesis
        by (simp add: scan_ranges.simps [of value_at end_of ident p])
    qed
  qed
qed

lemma scan_ranges_stops:
  "value_at p \<noteq> ident \<Longrightarrow> sint (end_of p) \<le> sint p \<Longrightarrow>
   scan_ranges value_at end_of ident p = None"
  by (simp add: scan_ranges.simps [of value_at end_of ident p])

lemma refresh_anchor_lost:
  "resolve_doc w a = Some d \<Longrightarrow> documents w d = Some D \<Longrightarrow>
   indicator D (pos a) \<noteq> id' a \<Longrightarrow>
   scan_ranges (indicator D) (sci_indicator_end E D) (id' a) 0 = None \<Longrightarrow>
   id' (refresh_anchor E w a) = 0"
  by (simp add: refresh_anchor_unfold relocate_def)

text \<open>
  C6. The scan of the indicator ranges in \<open>refresh_anchor\<close> ends for every
  indicator and every end function: the position is a signed 32-bit integer
  that grows strictly with every iteration, so \<open>2 ^ 31\<close> iterations from
  position 0 always reach the result. The scan stops with nothing found as soon
  as the end of the range does not lie behind the current position, and an
  anchor whose scan finds nothing gets id 0.
\<close>

theorem scan_ranges_terminates:
  "scan_ranges_fuel (2 ^ 31) value_at end_of ident 0 = Some (scan_ranges value_at end_of ident 0)
   \<and> (value_at p \<noteq> ident \<and> sint (end_of p) \<le> sint p
        \<longrightarrow> scan_ranges value_at end_of ident p = None)
   \<and> (resolve_doc w a = Some d \<and> documents w d = Some D \<and> indicator D (pos a) \<noteq> id' a
        \<and> scan_ranges (indicator D) (sci_indicator_end E D) (id' a) 0 = None
        \<longrightarrow> id' (refresh_anchor E w a) = 0)"
proof (intro conjI impI)
  show "scan_ranges_fuel (2 ^ 31) value_at end_of ident 0
      = Some (scan_ranges value_at end_of ident 0)"
    by (rule scan_ranges_fuel_enough) simp
qed (auto intro: scan_ranges_stops refresh_anchor_lost)

theorem scan_ranges_terminates_witness:
  "indicator doc_a 0 \<noteq> 1 \<and> sint (sci_indicator_end plain_ext doc_a 0) \<le> sint (0 :: gint)
   \<and> scan_ranges (indicator doc_a) (sci_indicator_end plain_ext doc_a) 1 0 = None
   \<and> resolve_doc two_docs anchor_a = Some 0 \<and> documents two_docs 0 = Some doc_a
   \<and> indicator doc_a (pos anchor_a) \<noteq> id' anchor_a
   \<and> id' (refresh_anchor plain_ext two_docs anchor_a) = 0"
proof -
  have h1: "indicator doc_a 0 \<noteq> 1 \<and> sint (sci_indicator_end plain_ext doc_a 0) \<le> sint (0 :: gint)"
    by (simp add: doc_a_def plain_ext_def)
  have h2: "resolve_doc two_docs anchor_a = Some 0 \<and> documents two_docs 0 = Some doc_a
      \<and> indicator doc_a (pos anchor_a) \<noteq> id' anchor_a"
    by (simp add: resolve_doc_def two_docs_def anchor_a_def DOC_VALID_def utils_str_equal_def
        doc_file_name_def doc_a_def)
  have id1: "id' anchor_a = 1" by (simp add: anchor_a_def)
  from scan_ranges_terminates [of "indicator doc_a" "sci_indicator_end plain_ext doc_a" 1 0
      two_docs anchor_a 0 doc_a plain_ext] h1 h2 id1
  show ?thesis by simp
qed

section \<open>Clearing an anchor\<close>

text \<open>
  C10. Destroying an anchor does not touch the tag of another anchor:
  \<open>clear_anchor\<close> changes the documents only by clearing the unit at the
  refreshed position, and only when the indicator there has the anchor's id.
  So for an anchor \<open>b\<close> with another id that is not 0, the positions of every
  document that carry the id of \<open>b\<close> are the same before and after.
\<close>

theorem clear_anchor_spares_other_tags:
  assumes "id' b \<noteq> id' a" and "id' b \<noteq> 0" and "documents w d = Some D"
  shows "(\<exists>D'. documents (clear_anchor E w a) d = Some D'
            \<and> (indicator D' p = id' b) = (indicator D p = id' b))
         \<and> (clear_anchor E w a = w \<or>
            (\<exists>d0 D0. resolve_doc w a = Some d0 \<and> documents w d0 = Some D0 \<and>
               indicator D0 (pos (refresh_anchor E w a)) = id' (refresh_anchor E w a) \<and>
               clear_anchor E w a =
                 w\<lparr>documents := (documents w)(d0 \<mapsto>
                      sci_indicator_clear D0 (pos (refresh_anchor E w a)))\<rparr>))"
proof
  show "\<exists>D'. documents (clear_anchor E w a) d = Some D'
            \<and> (indicator D' p = id' b) = (indicator D p = id' b)"
  proof (cases "indicator D p = id' b")
    case True
    with assms(1) have "indicator D p \<noteq> id' a" by simp
    from clear_anchor_keeps [OF assms(3) this, of E] True show ?thesis by auto
  next
    case False
    from clear_anchor_zero_or_same [OF assms(3), of E a p] False assms(2) show ?thesis by auto
  qed
qed (rule clear_anchor_cases)

theorem clear_anchor_spares_other_tags_witness:
  "id' anchor_a2 \<noteq> id' anchor_a \<and> id' anchor_a2 \<noteq> 0
   \<and> documents tagged_docs 0 = Some (doc_a\<lparr>indicator := (\<lambda>p. 0)(10 := 1, 20 := 2)\<rparr>)
   \<and> map_option (\<lambda>D. indicator D 20) (documents (clear_anchor plain_ext tagged_docs anchor_a) 0)
       = Some 2
   \<and> map_option (\<lambda>D. indicator D 10) (documents (clear_anchor plain_ext tagged_docs anchor_a) 0)
       = Some 0"
proof -
  have h: "id' anchor_a2 \<noteq> id' anchor_a" "id' anchor_a2 \<noteq> 0"
    "documents tagged_docs 0 = Some (doc_a\<lparr>indicator := (\<lambda>p. 0)(10 := 1, 20 := 2)\<rparr>)"
    by (simp_all add: anchor_a_def anchor_a2_def tagged_docs_def)
  have c: "map_option (\<lambda>D. indicator D 10)
      (documents (clear_anchor plain_ext tagged_docs anchor_a) 0) = Some 0"
    by (simp add: clear_anchor_def refresh_anchor_def Let_def anchor_a_def tagged_docs_def doc_a_def
        DOC_VALID_def utils_str_equal_def doc_file_name_def sci_indicator_value_at_def
        sci_indicator_clear_def)
  from clear_anchor_spares_other_tags [OF h, of plain_ext 20] h c show ?thesis
    by (auto simp: anchor_a2_def)
qed

section \<open>Removing a file\<close>

lemma g_queue_find_custom_None:
  "g_queue_find_custom q b = None \<Longrightarrow> filter (\<lambda>a. file' a \<noteq> b) q = q"
  by (induction q) (auto simp: find_by_filename_def utils_str_equal_def split: if_splits)

lemma g_queue_find_custom_Some:
  "g_queue_find_custom q b = Some i \<Longrightarrow>
   i < length q \<and> file' (q ! i) = b \<and> filter (\<lambda>a. file' a \<noteq> b) (take i q) = take i q"
proof (induction q arbitrary: i)
  case Nil
  then show ?case by simp
next
  case (Cons a q)
  show ?case
  proof (cases "file' a = b")
    case True
    with Cons.prems show ?thesis
      by (simp add: find_by_filename_def utils_str_equal_def)
  next
    case False
    with Cons.prems obtain j where j: "g_queue_find_custom q b = Some j" and i: "i = Suc j"
      by (auto simp: find_by_filename_def utils_str_equal_def)
    from Cons.IH [OF j] i False show ?thesis by simp
  qed
qed

lemma filter_delete_nth:
  assumes "i < length q" and "\<not> P (q ! i)"
  shows "filter P (take i q @ drop (Suc i) q) = filter P q"
proof -
  have "filter P q = filter P (take i q @ q ! i # drop (Suc i) q)"
    using id_take_nth_drop [OF assms(1)] by simp
  with assms(2) show ?thesis by simp
qed

lemma remove_matches_result:
  "\<exists>w'. remove_matches E w q b = (w', filter (\<lambda>a. file' a \<noteq> b) q) \<and> same_files w w'"
proof (induction E w q b rule: remove_matches.induct)
  case (1 E w q b)
  show ?case
  proof (cases "g_queue_find_custom q b")
    case None
    then show ?thesis
      by (subst remove_matches.simps) (simp add: g_queue_find_custom_None)
  next
    case (Some i)
    note found = g_queue_find_custom_Some [OF Some]
    from 1 [OF Some] obtain w' where
      r: "remove_matches E (clear_anchor E w (q ! i)) (take i q @ drop (Suc i) q) b
           = (w', filter (\<lambda>a. file' a \<noteq> b) (take i q @ drop (Suc i) q))"
      and sf: "same_files (clear_anchor E w (q ! i)) w'" by blast
    have "filter (\<lambda>a. file' a \<noteq> b) (take i q @ drop (Suc i) q) = filter (\<lambda>a. file' a \<noteq> b) q"
      using found by (intro filter_delete_nth) simp_all
    with r sf Some clear_anchor_same_files [of w E "q ! i"] show ?thesis
      by (subst remove_matches.simps) (auto intro: same_files_trans)
  qed
qed

lemma navqueue_remove_file_result:
  "navigation_queue (navqueue_remove_file E s (Some f))
     = filter (\<lambda>a. file' a \<noteq> Some f) (navigation_queue s)"
  "nav_queue_pos (navqueue_remove_file E s (Some f))
     = (if nav_queue_pos s \<ge> length (filter (\<lambda>a. file' a \<noteq> Some f) (navigation_queue s))
        then 0 else nav_queue_pos s)"
  "same_files (env s) (env (navqueue_remove_file E s (Some f)))"
  "buttons_exact (navqueue_remove_file E s (Some f))"
  "counter (navqueue_remove_file E s (Some f)) = counter s"
  using remove_matches_result [of E "env s" "navigation_queue s" "Some f"]
  by (auto simp: navqueue_remove_file_def Let_def)

lemma navqueue_remove_file_NULL: "navqueue_remove_file E s None = s"
  by (simp add: navqueue_remove_file_def)

text \<open>
  C8. \<open>navqueue_remove_file\<close> with a file name removes exactly the anchors with
  that file name and keeps the others in their order; afterwards a position
  that is not below the new length is reset to 0, and any other position is
  kept.
\<close>

theorem navqueue_remove_file_exact:
  "navigation_queue (navqueue_remove_file E s (Some f))
     = filter (\<lambda>a. file' a \<noteq> Some f) (navigation_queue s)
   \<and> nav_queue_pos (navqueue_remove_file E s (Some f))
     = (if nav_queue_pos s \<ge> length (navigation_queue (navqueue_remove_file E s (Some f)))
        then 0 else nav_queue_pos s)"
  by (simp add: navqueue_remove_file_result)

section \<open>Going back and forward\<close>

lemma editor_goto_pos_cases:
  "editor_goto_pos E w d p = (False, w) \<or>
   (\<exists>D. documents w d = Some D \<and> goto_accepts E D p \<and>
      editor_goto_pos E w d p =
        (True, w\<lparr>documents := (documents w)(d \<mapsto> D\<lparr>current_position := p\<rparr>),
                 current_page := Some d\<rparr>))"
  by (simp add: editor_goto_pos_def split: option.splits)

lemma goto_anchor_cases:
  "goto_anchor E w a = (False, refresh_anchor E w a, w) \<or>
   (\<exists>d D. resolve_doc w a = Some d \<and> documents w d = Some D \<and>
      goto_accepts E D (pos (refresh_anchor E w a)) \<and>
      goto_anchor E w a =
        (True, refresh_anchor E w a,
         w\<lparr>documents := (documents w)(d \<mapsto> D\<lparr>current_position := pos (refresh_anchor E w a)\<rparr>),
           current_page := Some d\<rparr>))"
proof (cases "resolve_doc w a")
  case None
  then show ?thesis by (simp add: goto_anchor_def Let_def)
next
  case (Some d)
  with editor_goto_pos_cases [of E w d "pos (refresh_anchor E w a)"] show ?thesis
    by (auto simp: goto_anchor_def Let_def)
qed

lemma goto_anchor_snd: "fst (snd (goto_anchor E w a)) = refresh_anchor E w a"
  using goto_anchor_cases [of E w a] by auto

lemma goto_anchor_failed: "\<not> fst (goto_anchor E w a) \<Longrightarrow> snd (snd (goto_anchor E w a)) = w"
  using goto_anchor_cases [of E w a] by auto

lemma go_back_step_none:
  "navigation_queue s = [] \<or> nav_queue_pos s \<ge> length (navigation_queue s) - 1 \<Longrightarrow>
   go_back_step E s = s"
  by (simp add: go_back_step_def Let_def)

lemma go_back_step_done:
  assumes "navigation_queue s \<noteq> []" and "nav_queue_pos s < length (navigation_queue s) - 1"
    and "fst (goto_anchor E (env s) (navigation_queue s ! (nav_queue_pos s + 1)))"
  shows "go_back_step E s =
    adjust_buttons (s\<lparr>navigation_queue := (navigation_queue s)[nav_queue_pos s + 1 :=
                            refresh_anchor E (env s) (navigation_queue s ! (nav_queue_pos s + 1))],
                       nav_queue_pos := nav_queue_pos s + 1,
                       env := snd (snd (goto_anchor E (env s)
                                (navigation_queue s ! (nav_queue_pos s + 1))))\<rparr>)"
  using assms goto_anchor_snd [of E "env s" "navigation_queue s ! (nav_queue_pos s + 1)"]
  by (cases "goto_anchor E (env s) (navigation_queue s ! (nav_queue_pos s + 1))")
     (simp add: go_back_step_def Let_def)

lemma go_back_step_purged:
  assumes "navigation_queue s \<noteq> []" and "nav_queue_pos s < length (navigation_queue s) - 1"
    and "\<not> fst (goto_anchor E (env s) (navigation_queue s ! (nav_queue_pos s + 1)))"
  shows "go_back_step E s =
    adjust_buttons (s\<lparr>navigation_queue := take (nav_queue_pos s + 1) (navigation_queue s)
                                          @ drop (nav_queue_pos s + 2) (navigation_queue s),
                       env := clear_anchor E (env s)
                                (refresh_anchor E (env s)
                                   (navigation_queue s ! (nav_queue_pos s + 1)))\<rparr>)"
  using assms goto_anchor_snd [of E "env s" "navigation_queue s ! (nav_queue_pos s + 1)"]
    goto_anchor_failed [of E "env s" "navigation_queue s ! (nav_queue_pos s + 1)"]
  by (cases "goto_anchor E (env s) (navigation_queue s ! (nav_queue_pos s + 1))")
     (simp add: go_back_step_def Let_def)

text \<open>
  C3. The step of \<open>navqueue_go_back\<close> that follows the recording of the current
  position, when there is an older entry to go to: either going to the entry
  at position + 1 succeeds, the position grows by one and the queue keeps its
  length (the entry is refreshed in place); or it fails, exactly that entry is
  removed, the queue is one shorter and the position is unchanged.
\<close>

theorem go_back_step_all_or_nothing:
  assumes "navigation_queue s \<noteq> []" and "nav_queue_pos s < length (navigation_queue s) - 1"
  shows "(fst (goto_anchor E (env s) (navigation_queue s ! (nav_queue_pos s + 1)))
          \<and> nav_queue_pos (go_back_step E s) = nav_queue_pos s + 1
          \<and> length (navigation_queue (go_back_step E s)) = length (navigation_queue s)
          \<and> navigation_queue (go_back_step E s) =
              (navigation_queue s)[nav_queue_pos s + 1 :=
                 refresh_anchor E (env s) (navigation_queue s ! (nav_queue_pos s + 1))])
       \<or> (\<not> fst (goto_anchor E (env s) (navigation_queue s ! (nav_queue_pos s + 1)))
          \<and> nav_queue_pos (go_back_step E s) = nav_queue_pos s
          \<and> length (navigation_queue (go_back_step E s)) = length (navigation_queue s) - 1
          \<and> navigation_queue (go_back_step E s) =
              take (nav_queue_pos s + 1) (navigation_queue s)
              @ drop (nav_queue_pos s + 2) (navigation_queue s))"
proof (cases "fst (goto_anchor E (env s) (navigation_queue s ! (nav_queue_pos s + 1)))")
  case True
  from go_back_step_done [OF assms True] True show ?thesis by simp
next
  case False
  from go_back_step_purged [OF assms False] False assms show ?thesis by auto
qed

lemma navqueue_go_forward_none:
  "nav_queue_pos s < 1 \<or> nav_queue_pos s \<ge> length (navigation_queue s) \<Longrightarrow>
   navqueue_go_forward E s = s"
  by (simp add: navqueue_go_forward_def Let_def)

lemma navqueue_go_forward_done:
  assumes "1 \<le> nav_queue_pos s" and "nav_queue_pos s < length (navigation_queue s)"
    and "fst (goto_anchor E (env s) (navigation_queue s ! (nav_queue_pos s - 1)))"
  shows "navqueue_go_forward E s =
    adjust_buttons (s\<lparr>navigation_queue := (navigation_queue s)[nav_queue_pos s - 1 :=
                            refresh_anchor E (env s) (navigation_queue s ! (nav_queue_pos s - 1))],
                       nav_queue_pos := nav_queue_pos s - 1,
                       env := snd (snd (goto_anchor E (env s)
                                (navigation_queue s ! (nav_queue_pos s - 1))))\<rparr>)"
  using assms goto_anchor_snd [of E "env s" "navigation_queue s ! (nav_queue_pos s - 1)"]
  by (cases "goto_anchor E (env s) (navigation_queue s ! (nav_queue_pos s - 1))")
     (simp add: navqueue_go_forward_def Let_def)

lemma navqueue_go_forward_purged:
  assumes "1 \<le> nav_queue_pos s" and "nav_queue_pos s < length (navigation_queue s)"
    and "\<not> fst (goto_anchor E (env s) (navigation_queue s ! (nav_queue_pos s - 1)))"
  shows "navqueue_go_forward E s =
    adjust_buttons (s\<lparr>navigation_queue := take (nav_queue_pos s - 1) (navigation_queue s)
                                          @ drop (nav_queue_pos s) (navigation_queue s),
                       env := clear_anchor E (env s)
                                (refresh_anchor E (env s)
                                   (navigation_queue s ! (nav_queue_pos s - 1)))\<rparr>)"
  using assms goto_anchor_snd [of E "env s" "navigation_queue s ! (nav_queue_pos s - 1)"]
    goto_anchor_failed [of E "env s" "navigation_queue s ! (nav_queue_pos s - 1)"]
  by (cases "goto_anchor E (env s) (navigation_queue s ! (nav_queue_pos s - 1))")
     (simp add: navqueue_go_forward_def Let_def)

section \<open>What the operations keep\<close>

lemma queue_inv_init: "queue_inv (navqueue_init w)"
  by (simp add: queue_inv_def navqueue_init_def buttons_exact_def)

lemma queue_inv_add_position:
  assumes "queue_inv s"
  shows "\<exists>s'. navqueue_add_position E s d p = Some s' \<and> queue_inv s'"
proof (cases "doc_file_name (env s) d")
  case None
  with assms show ?thesis by (simp add: add_position_no_file)
next
  case (Some f)
  obtain m s1 where m: "queue_pos_matches E s (nav_queue_pos s) d p = (m, s1)"
    by (cases "queue_pos_matches E s (nav_queue_pos s) d p")
  note f = queue_pos_matches_fields [OF m]
  show ?thesis
  proof (cases m)
    case True
    with m Some have "navqueue_add_position E s d p = Some s1"
      by (simp add: add_position_match)
    moreover have "queue_inv s1"
      using assms f buttons_exact_cong [of s1 s] by (simp add: queue_inv_def)
    ultimately show ?thesis by simp
  next
    case False
    from assms have "nav_queue_pos s \<le> length (navigation_queue s)"
      by (simp add: queue_inv_def)
    moreover from False m have "queue_pos_matches E s (nav_queue_pos s) d p = (False, s1)"
      by simp
    ultimately show ?thesis
      using add_position_push [OF Some, of E p s1] by (auto simp: queue_inv_def)
  qed
qed

lemma queue_inv_go_back_step:
  assumes "queue_inv s"
  shows "queue_inv (go_back_step E s)"
proof (cases "navigation_queue s = [] \<or> nav_queue_pos s \<ge> length (navigation_queue s) - 1")
  case True
  with assms show ?thesis by (simp add: go_back_step_none)
next
  case False
  then have ne: "navigation_queue s \<noteq> []"
    and lt: "nav_queue_pos s < length (navigation_queue s) - 1" by auto
  show ?thesis
  proof (cases "fst (goto_anchor E (env s) (navigation_queue s ! (nav_queue_pos s + 1)))")
    case True
    from go_back_step_done [OF ne lt True] assms lt show ?thesis
      by (simp add: queue_inv_def)
  next
    case False
    from go_back_step_purged [OF ne lt False] assms lt show ?thesis
      by (auto simp: queue_inv_def)
  qed
qed

lemma document_get_current_valid:
  "document_get_current w = Some d \<Longrightarrow> \<exists>D. documents w d = Some D"
  by (auto simp: document_get_current_def split: option.splits if_splits)

lemma queue_inv_go_back:
  assumes "queue_inv s"
  shows "\<exists>s'. navqueue_go_back E s = Some s' \<and> queue_inv s'"
proof (cases "document_get_current (env s)")
  case None
  with assms queue_inv_go_back_step [of s E] show ?thesis
    by (simp add: navqueue_go_back_def)
next
  case (Some d)
  then obtain D where D: "documents (env s) d = Some D"
    using document_get_current_valid by blast
  from queue_inv_add_position [OF assms, of E d "current_position D"] obtain s1 where
    "navqueue_add_position E s d (current_position D) = Some s1" and "queue_inv s1" by blast
  with Some D queue_inv_go_back_step [of s1 E] show ?thesis
    by (simp add: navqueue_go_back_def)
qed

lemma queue_inv_go_forward:
  assumes "queue_inv s"
  shows "queue_inv (navqueue_go_forward E s)"
proof (cases "nav_queue_pos s < 1 \<or> nav_queue_pos s \<ge> length (navigation_queue s)")
  case True
  with assms show ?thesis by (simp add: navqueue_go_forward_none)
next
  case False
  then have ge: "1 \<le> nav_queue_pos s" and lt: "nav_queue_pos s < length (navigation_queue s)"
    by auto
  show ?thesis
  proof (cases "fst (goto_anchor E (env s) (navigation_queue s ! (nav_queue_pos s - 1)))")
    case True
    from navqueue_go_forward_done [OF ge lt True] assms lt show ?thesis
      by (simp add: queue_inv_def)
  next
    case False
    from navqueue_go_forward_purged [OF ge lt False] assms ge lt show ?thesis
      by (auto simp: queue_inv_def)
  qed
qed

lemma queue_inv_remove_file:
  assumes "queue_inv s"
  shows "queue_inv (navqueue_remove_file E s f)"
proof (cases f)
  case None
  with assms show ?thesis by (simp add: navqueue_remove_file_NULL)
next
  case (Some n)
  from assms have "length (navigation_queue s) \<le> MAX_NAVQUEUE_LENGTH"
    by (simp add: queue_inv_def)
  then have "length (filter (\<lambda>a. file' a \<noteq> Some n) (navigation_queue s)) \<le> MAX_NAVQUEUE_LENGTH"
    by (rule order_trans [OF length_filter_le])
  with Some show ?thesis
    by (simp add: queue_inv_def navqueue_remove_file_result)
qed

lemma queue_inv_perform:
  assumes "queue_inv s"
  shows "\<exists>s'. perform E s r = Some s' \<and> queue_inv s'"
proof (cases r)
  case (Record d p)
  with queue_inv_add_position [OF assms] show ?thesis by simp
next
  case Back
  with queue_inv_go_back [OF assms] show ?thesis by simp
next
  case Forward
  with queue_inv_go_forward [OF assms] show ?thesis by simp
next
  case (Remove f)
  with queue_inv_remove_file [OF assms] show ?thesis by simp
next
  case (Edit w)
  with assms show ?thesis
    by (simp add: queue_inv_def buttons_exact_def)
qed

lemma queue_inv_run:
  "queue_inv s \<Longrightarrow> \<exists>s'. run E s rs = Some s' \<and> queue_inv s'"
proof (induction rs arbitrary: s)
  case Nil
  then show ?case by simp
next
  case (Cons r rs)
  from queue_inv_perform [OF Cons.prems, of E r] obtain s1 where
    "perform E s r = Some s1" and "queue_inv s1" by blast
  with Cons.IH [of s1] show ?case by simp
qed

section \<open>Evaluating the examples\<close>

lemmas eval_defs =
  navqueue_add_position_def queue_pos_matches_def set_anchor_def refresh_anchor_def
  clear_anchor_def goto_anchor_def go_back_step_def navqueue_go_back_def navqueue_go_forward_def
  navqueue_remove_file_def adjust_buttons_def editor_goto_pos_def document_get_current_def
  document_find_by_filename_def doc_file_name_def DOC_VALID_def utils_str_equal_def
  sci_indicator_value_at_def sci_indicator_fill_def sci_indicator_clear_def navqueue_init_def
  MAX_NAVQUEUE_LENGTH_def find_by_filename_def Let_def pop_tails.simps scan_ranges.simps
  remove_matches.simps

lemmas example_defs =
  doc_a_def doc_b_def two_docs_def plain_ext_def anchor_a_def anchor_b_def anchor_a2_def
  tagged_docs_def session_docs_def two_entries_def stepped_back_def renamed_docs_def
  anchor_lost_def anchor_gone_def lost_docs_def lost_entries_def gone_entries_def

theorem go_back_step_all_or_nothing_witness:
  "navigation_queue two_entries \<noteq> []
   \<and> nav_queue_pos two_entries < length (navigation_queue two_entries) - 1
   \<and> fst (goto_anchor plain_ext (env two_entries)
            (navigation_queue two_entries ! (nav_queue_pos two_entries + 1)))
   \<and> nav_queue_pos (go_back_step plain_ext two_entries) = 1
   \<and> length (navigation_queue (go_back_step plain_ext two_entries)) = 2"
proof -
  have h: "navigation_queue two_entries \<noteq> []"
    "nav_queue_pos two_entries < length (navigation_queue two_entries) - 1"
    by (simp_all add: two_entries_def)
  have ok: "fst (goto_anchor plain_ext (env two_entries)
            (navigation_queue two_entries ! (nav_queue_pos two_entries + 1)))"
    by (simp add: eval_defs example_defs)
  have n: "nav_queue_pos two_entries = 0" "length (navigation_queue two_entries) = 2"
    by (simp_all add: two_entries_def)
  from go_back_step_all_or_nothing [OF h, of plain_ext] h ok n show ?thesis by simp
qed

text \<open>
  C7. The buttons after the operations: \<open>adjust_buttons\<close> sets back to
  "length at least 2 and position below length - 1" and forward to "length at
  least 2 and position above 0", and after every sequence of operations and
  changes of the documents that starts at \<open>navqueue_init\<close> the buttons show
  exactly that for the queue and the position reached.
\<close>

theorem buttons_after_every_operation:
  "(\<exists>s. run E (navqueue_init w) rs = Some s
        \<and> nav_back s = (length (navigation_queue s) \<ge> 2
             \<and> nav_queue_pos s < length (navigation_queue s) - 1)
        \<and> nav_for s = (length (navigation_queue s) \<ge> 2 \<and> nav_queue_pos s > 0))
   \<and> nav_back (adjust_buttons t) = (length (navigation_queue t) \<ge> 2
        \<and> nav_queue_pos t < length (navigation_queue t) - 1)
   \<and> nav_for (adjust_buttons t) = (length (navigation_queue t) \<ge> 2 \<and> nav_queue_pos t > 0)"
proof -
  from queue_inv_run [OF queue_inv_init, of E w rs] obtain s where
    "run E (navqueue_init w) rs = Some s" and "queue_inv s" by blast
  then show ?thesis
    by (auto simp: queue_inv_def buttons_exact_def adjust_buttons_buttons)
qed

text \<open>
  C4. After every sequence of operations that starts with the empty queue (in
  particular every sequence of \<open>navqueue_add_position\<close> calls, whatever happens
  to the documents in between) the operations have returned and the queue has
  at most 100 entries. The loop that follows the push drops entries from the
  tail and leaves the 100 newest ones.
\<close>

theorem queue_length_bounded:
  "(\<exists>s. run E (navqueue_init w) rs = Some s \<and> length (navigation_queue s) \<le> 100)
   \<and> snd (pop_tails E w' q) = take 100 q"
proof -
  from queue_inv_run [OF queue_inv_init, of E w rs] obtain s where
    "run E (navqueue_init w) rs = Some s" and "queue_inv s" by blast
  moreover from pop_tails_result [of E w' q] have "snd (pop_tails E w' q) = take 100 q"
    by (auto simp: MAX_NAVQUEUE_LENGTH_def)
  ultimately show ?thesis
    by (auto simp: queue_inv_def MAX_NAVQUEUE_LENGTH_def)
qed

section \<open>The position after a failed step forward\<close>

text \<open>
  C9. The position is not always 0 or below the length. When
  \<open>navqueue_go_forward\<close> fails to go to the entry at position - 1 it removes
  that entry and keeps the position, so from the last index the position ends
  up equal to the length. Here two positions are recorded, the user goes back
  once, the newer document is saved under another name and the user goes
  forward: one entry is left and the position is 1.
\<close>

theorem go_forward_position_out_of_range:
  "map_option nav_queue_pos
     (run plain_ext (navqueue_init two_docs)
        [Record 0 10, Record 1 5, Back, Edit renamed_docs, Forward]) = Some 1
   \<and> map_option navigation_queue
     (run plain_ext (navqueue_init two_docs)
        [Record 0 10, Record 1 5, Back, Edit renamed_docs, Forward]) = Some [anchor_a]"
  by (simp add: eval_defs example_defs upt_rec)

section \<open>Recording from inside the queue\<close>

text \<open>
  The count of the truncation law with the push left out fails: from position 1
  in a queue of two entries, recording a new position leaves two entries, the
  new one and the old one at index 1, not one.
\<close>

theorem add_position_truncation_counterexample:
  "0 < nav_queue_pos stepped_back
   \<and> \<not> fst (queue_pos_matches plain_ext stepped_back (nav_queue_pos stepped_back) 0 77)
   \<and> map_option (\<lambda>s. length (navigation_queue s))
        (navqueue_add_position plain_ext stepped_back 0 77)
      \<noteq> Some (length (navigation_queue stepped_back) - nav_queue_pos stepped_back)"
  by (simp add: eval_defs example_defs)

text \<open>
  C2, amended. With the position at \<open>k > 0\<close> in a queue of at most 100 entries,
  recording a position of a document that has a file name and that does not
  match the entry at \<open>k\<close> yields a queue of \<open>length - k + 1\<close> entries: the new
  anchor at the head, followed by the old entries from index \<open>k\<close> on (the
  entry at \<open>k\<close> as \<open>queue_pos_matches\<close> left it). The old entries at
  \<open>0..k-1\<close> are gone and the position is 0.
\<close>

theorem add_position_truncates:
  assumes "0 < nav_queue_pos s" and "nav_queue_pos s \<le> length (navigation_queue s)"
    and "length (navigation_queue s) \<le> MAX_NAVQUEUE_LENGTH"
    and "doc_file_name (env s) d = Some f"
    and "\<not> fst (queue_pos_matches E s (nav_queue_pos s) d p)"
  shows "\<exists>s'. navqueue_add_position E s d p = Some s'
           \<and> length (navigation_queue s') = length (navigation_queue s) - nav_queue_pos s + 1
           \<and> nav_queue_pos s' = 0
           \<and> navigation_queue s' =
               \<lparr>file' = Some f, doc = Some d, id' = counter s + 1, pos = p\<rparr>
               # drop (nav_queue_pos s)
                   (navigation_queue (snd (queue_pos_matches E s (nav_queue_pos s) d p)))
           \<and> drop 2 (navigation_queue s') = drop (nav_queue_pos s + 1) (navigation_queue s)"
proof -
  obtain s1 where m: "queue_pos_matches E s (nav_queue_pos s) d p = (False, s1)"
    using assms(5) by (cases "queue_pos_matches E s (nav_queue_pos s) d p") auto
  note f = queue_pos_matches_fields [OF m]
  let ?a = "\<lparr>file' = Some f, doc = Some d, id' = counter s + 1, pos = p\<rparr>"
  from add_position_push [OF assms(4) m assms(2)] obtain s' where
    r: "navqueue_add_position E s d p = Some s'"
    and q: "navigation_queue s' =
      take MAX_NAVQUEUE_LENGTH (?a # drop (nav_queue_pos s) (navigation_queue s1))"
    and n: "nav_queue_pos s' = 0" by blast
  have "length (?a # drop (nav_queue_pos s) (navigation_queue s1)) \<le> MAX_NAVQUEUE_LENGTH"
    using assms(1-3) f(1) by simp
  with q have q': "navigation_queue s' = ?a # drop (nav_queue_pos s) (navigation_queue s1)"
    by simp
  have "drop 2 (navigation_queue s') = drop (Suc (nav_queue_pos s)) (navigation_queue s1)"
    by (simp add: q' numeral_2_eq_2)
  with f(8) have d2: "drop 2 (navigation_queue s') = drop (nav_queue_pos s + 1) (navigation_queue s)"
    by simp
  have len: "length (navigation_queue s') = length (navigation_queue s) - nav_queue_pos s + 1"
    using q' f(1) by simp
  from r n q' d2 len m show ?thesis by simp
qed

theorem add_position_truncates_witness:
  "0 < nav_queue_pos stepped_back
   \<and> nav_queue_pos stepped_back \<le> length (navigation_queue stepped_back)
   \<and> length (navigation_queue stepped_back) \<le> MAX_NAVQUEUE_LENGTH
   \<and> doc_file_name (env stepped_back) 0 = Some ''a.c''
   \<and> \<not> fst (queue_pos_matches plain_ext stepped_back (nav_queue_pos stepped_back) 0 77)
   \<and> map_option navigation_queue (navqueue_add_position plain_ext stepped_back 0 77)
       = Some [\<lparr>file' = Some ''a.c'', doc = Some 0, id' = 3, pos = 77\<rparr>, anchor_a]
   \<and> map_option nav_queue_pos (navqueue_add_position plain_ext stepped_back 0 77) = Some 0"
proof -
  have h: "0 < nav_queue_pos stepped_back"
    "nav_queue_pos stepped_back \<le> length (navigation_queue stepped_back)"
    "length (navigation_queue stepped_back) \<le> MAX_NAVQUEUE_LENGTH"
    "doc_file_name (env stepped_back) 0 = Some ''a.c''"
    "\<not> fst (queue_pos_matches plain_ext stepped_back (nav_queue_pos stepped_back) 0 77)"
    by (simp_all add: eval_defs example_defs)
  have q: "navigation_queue (snd (queue_pos_matches plain_ext stepped_back
              (nav_queue_pos stepped_back) 0 77)) = [anchor_b, anchor_a]"
    "nav_queue_pos stepped_back = 1" "counter stepped_back = 2"
    by (simp_all add: eval_defs example_defs)
  from add_position_truncates [OF h] h q show ?thesis
    by auto
qed

section \<open>Going to an anchor whose tag is lost\<close>

lemma same_files_caret: "same_files w w' \<Longrightarrow> caret w' = caret w"
proof -
  assume sf: "same_files w w'"
  have "map_option current_position (documents w' d) = map_option current_position (documents w d)"
    for d
  proof (cases "documents w d")
    case None
    with same_files_None [OF sf, of d] show ?thesis by simp
  next
    case (Some D)
    with same_files_Some [OF sf Some] show ?thesis by auto
  qed
  moreover from sf have "current_page w' = current_page w"
    by (simp add: same_files_def)
  ultimately show ?thesis by (simp add: caret_def)
qed

lemma goto_anchor_ok_iff:
  "fst (goto_anchor E w a) =
     (\<exists>d D. resolve_doc w a = Some d \<and> documents w d = Some D \<and>
        goto_accepts E D (pos (refresh_anchor E w a)))"
proof (cases "resolve_doc w a")
  case None
  then show ?thesis by (simp add: goto_anchor_def Let_def)
next
  case (Some d)
  then obtain D where "documents w d = Some D"
    using resolve_doc_valid by blast
  with Some show ?thesis
    by (simp add: goto_anchor_def Let_def editor_goto_pos_def)
qed

lemma goto_anchor_moved:
  assumes "fst (goto_anchor E w a)"
  shows "\<exists>d. resolve_doc w a = Some d
           \<and> current_page (snd (snd (goto_anchor E w a))) = Some d
           \<and> map_option current_position (documents (snd (snd (goto_anchor E w a))) d)
               = Some (pos (refresh_anchor E w a))"
  using goto_anchor_cases [of E w a] assms by auto

text \<open>
  An entry with id 0 whose document is open is gone back to like any other:
  the caret moves from \<open>b.c\<close> to the cached position 10 of \<open>a.c\<close>, the
  position becomes 1 and both entries stay in the queue.
\<close>

theorem invalidated_anchor_counterexample:
  "id' anchor_lost = 0
   \<and> navigation_queue lost_entries ! (nav_queue_pos lost_entries + 1) = anchor_lost
   \<and> doc (refresh_anchor plain_ext (env lost_entries) anchor_lost) = Some 0
   \<and> current_page (env lost_entries) = Some 1
   \<and> map_option (\<lambda>s. current_page (env s)) (navqueue_go_back plain_ext lost_entries)
       = Some (Some 0)
   \<and> map_option (\<lambda>s. map_option current_position (documents (env s) 0))
        (navqueue_go_back plain_ext lost_entries) = Some (Some 10)
   \<and> map_option nav_queue_pos (navqueue_go_back plain_ext lost_entries) = Some 1
   \<and> map_option navigation_queue (navqueue_go_back plain_ext lost_entries)
       = Some [anchor_b, anchor_lost]"
  by (simp add: eval_defs example_defs)

text \<open>
  C1, amended. For an anchor with id 0, \<open>refresh_anchor\<close> only looks the
  document up again and keeps position and id; going to it succeeds exactly
  when an open document has its file name and the editor accepts the cached
  position. A step back or forward that targets such an entry then moves the
  caret to the cached position in that document, moves the queue position by
  one and keeps the entry; when going to it fails, the caret stays where it is
  and the entry is removed from the queue.
\<close>

theorem invalidated_anchor_navigation:
  assumes "id' a = 0"
  shows "refresh_anchor E (env s) a = a\<lparr>doc := resolve_doc (env s) a\<rparr>
    \<and> fst (goto_anchor E (env s) a) =
        (\<exists>d D. resolve_doc (env s) a = Some d \<and> documents (env s) d = Some D
           \<and> goto_accepts E D (pos a))
    \<and> (navigation_queue s \<noteq> [] \<and> nav_queue_pos s < length (navigation_queue s) - 1
        \<and> navigation_queue s ! (nav_queue_pos s + 1) = a \<longrightarrow>
        (if fst (goto_anchor E (env s) a)
         then nav_queue_pos (go_back_step E s) = nav_queue_pos s + 1
            \<and> navigation_queue (go_back_step E s) =
                (navigation_queue s)[nav_queue_pos s + 1 := a\<lparr>doc := resolve_doc (env s) a\<rparr>]
            \<and> (\<exists>d. resolve_doc (env s) a = Some d
                 \<and> current_page (env (go_back_step E s)) = Some d
                 \<and> map_option current_position (documents (env (go_back_step E s)) d)
                     = Some (pos a))
         else nav_queue_pos (go_back_step E s) = nav_queue_pos s
            \<and> navigation_queue (go_back_step E s) =
                take (nav_queue_pos s + 1) (navigation_queue s)
                @ drop (nav_queue_pos s + 2) (navigation_queue s)
            \<and> caret (env (go_back_step E s)) = caret (env s)))
    \<and> (1 \<le> nav_queue_pos s \<and> nav_queue_pos s < length (navigation_queue s)
        \<and> navigation_queue s ! (nav_queue_pos s - 1) = a \<longrightarrow>
        (if fst (goto_anchor E (env s) a)
         then nav_queue_pos (navqueue_go_forward E s) = nav_queue_pos s - 1
            \<and> navigation_queue (navqueue_go_forward E s) =
                (navigation_queue s)[nav_queue_pos s - 1 := a\<lparr>doc := resolve_doc (env s) a\<rparr>]
            \<and> (\<exists>d. resolve_doc (env s) a = Some d
                 \<and> current_page (env (navqueue_go_forward E s)) = Some d
                 \<and> map_option current_position (documents (env (navqueue_go_forward E s)) d)
                     = Some (pos a))
         else nav_queue_pos (navqueue_go_forward E s) = nav_queue_pos s
            \<and> navigation_queue (navqueue_go_forward E s) =
                take (nav_queue_pos s - 1) (navigation_queue s)
                @ drop (nav_queue_pos s) (navigation_queue s)
            \<and> caret (env (navqueue_go_forward E s)) = caret (env s)))"
proof -
  let ?w = "env s"
  have r: "refresh_anchor E ?w a = a\<lparr>doc := resolve_doc ?w a\<rparr>"
    using assms by (rule refresh_anchor_zero)
  then have p: "pos (refresh_anchor E ?w a) = pos a" by simp
  have ok: "fst (goto_anchor E ?w a) =
        (\<exists>d D. resolve_doc ?w a = Some d \<and> documents ?w d = Some D \<and> goto_accepts E D (pos a))"
    using goto_anchor_ok_iff [of E ?w a] p by simp
  have bstep: "if fst (goto_anchor E ?w a)
         then nav_queue_pos (go_back_step E s) = nav_queue_pos s + 1
            \<and> navigation_queue (go_back_step E s) =
                (navigation_queue s)[nav_queue_pos s + 1 := a\<lparr>doc := resolve_doc ?w a\<rparr>]
            \<and> (\<exists>d. resolve_doc ?w a = Some d
                 \<and> current_page (env (go_back_step E s)) = Some d
                 \<and> map_option current_position (documents (env (go_back_step E s)) d)
                     = Some (pos a))
         else nav_queue_pos (go_back_step E s) = nav_queue_pos s
            \<and> navigation_queue (go_back_step E s) =
                take (nav_queue_pos s + 1) (navigation_queue s)
                @ drop (nav_queue_pos s + 2) (navigation_queue s)
            \<and> caret (env (go_back_step E s)) = caret ?w"
    if h: "navigation_queue s \<noteq> []" "nav_queue_pos s < length (navigation_queue s) - 1"
      and t: "navigation_queue s ! (nav_queue_pos s + 1) = a"
  proof (cases "fst (goto_anchor E ?w a)")
    case True
    with t have g: "fst (goto_anchor E ?w (navigation_queue s ! (nav_queue_pos s + 1)))" by simp
    from go_back_step_done [OF h g] goto_anchor_moved [OF True] True t r p show ?thesis
      by simp
  next
    case False
    with t have g: "\<not> fst (goto_anchor E ?w (navigation_queue s ! (nav_queue_pos s + 1)))" by simp
    from go_back_step_purged [OF h g] False t
      same_files_caret [OF clear_anchor_same_files [of ?w E "refresh_anchor E ?w a"]]
    show ?thesis by simp
  qed
  have fstep: "if fst (goto_anchor E ?w a)
         then nav_queue_pos (navqueue_go_forward E s) = nav_queue_pos s - 1
            \<and> navigation_queue (navqueue_go_forward E s) =
                (navigation_queue s)[nav_queue_pos s - 1 := a\<lparr>doc := resolve_doc ?w a\<rparr>]
            \<and> (\<exists>d. resolve_doc ?w a = Some d
                 \<and> current_page (env (navqueue_go_forward E s)) = Some d
                 \<and> map_option current_position (documents (env (navqueue_go_forward E s)) d)
                     = Some (pos a))
         else nav_queue_pos (navqueue_go_forward E s) = nav_queue_pos s
            \<and> navigation_queue (navqueue_go_forward E s) =
                take (nav_queue_pos s - 1) (navigation_queue s)
                @ drop (nav_queue_pos s) (navigation_queue s)
            \<and> caret (env (navqueue_go_forward E s)) = caret ?w"
    if h: "1 \<le> nav_queue_pos s" "nav_queue_pos s < length (navigation_queue s)"
      and t: "navigation_queue s ! (nav_queue_pos s - 1) = a"
  proof (cases "fst (goto_anchor E ?w a)")
    case True
    with t have g: "fst (goto_anchor E ?w (navigation_queue s ! (nav_queue_pos s - 1)))" by simp
    from navqueue_go_forward_done [OF h g] goto_anchor_moved [OF True] True t r p show ?thesis
      by simp
  next
    case False
    with t have g: "\<not> fst (goto_anchor E ?w (navigation_queue s ! (nav_queue_pos s - 1)))" by simp
    from navqueue_go_forward_purged [OF h g] False t
      same_files_caret [OF clear_anchor_same_files [of ?w E "refresh_anchor E ?w a"]]
    show ?thesis by simp
  qed
  from r ok bstep fstep show ?thesis by blast
qed

theorem invalidated_anchor_navigation_witness:
  "id' anchor_lost = 0
   \<and> navigation_queue lost_entries \<noteq> []
   \<and> nav_queue_pos lost_entries < length (navigation_queue lost_entries) - 1
   \<and> navigation_queue lost_entries ! (nav_queue_pos lost_entries + 1) = anchor_lost
   \<and> fst (goto_anchor plain_ext (env lost_entries) anchor_lost)
   \<and> nav_queue_pos (go_back_step plain_ext lost_entries) = 1
   \<and> navigation_queue (go_back_step plain_ext lost_entries) = [anchor_b, anchor_lost]
   \<and> id' anchor_gone = 0
   \<and> 1 \<le> nav_queue_pos gone_entries
   \<and> nav_queue_pos gone_entries < length (navigation_queue gone_entries)
   \<and> navigation_queue gone_entries ! (nav_queue_pos gone_entries - 1) = anchor_gone
   \<and> \<not> fst (goto_anchor plain_ext (env gone_entries) anchor_gone)
   \<and> navigation_queue (navqueue_go_forward plain_ext gone_entries) = [anchor_a]
   \<and> caret (env (navqueue_go_forward plain_ext gone_entries)) = caret (env gone_entries)"
proof -
  have z: "id' anchor_lost = 0" "id' anchor_gone = 0"
    by (simp_all add: anchor_lost_def anchor_gone_def)
  have hb: "navigation_queue lost_entries \<noteq> []
      \<and> nav_queue_pos lost_entries < length (navigation_queue lost_entries) - 1
      \<and> navigation_queue lost_entries ! (nav_queue_pos lost_entries + 1) = anchor_lost"
    by (simp add: lost_entries_def)
  have hf: "1 \<le> nav_queue_pos gone_entries
      \<and> nav_queue_pos gone_entries < length (navigation_queue gone_entries)
      \<and> navigation_queue gone_entries ! (nav_queue_pos gone_entries - 1) = anchor_gone"
    by (simp add: gone_entries_def)
  have gb: "fst (goto_anchor plain_ext (env lost_entries) anchor_lost)"
    by (simp add: eval_defs example_defs)
  have gf: "\<not> fst (goto_anchor plain_ext (env gone_entries) anchor_gone)"
    by (simp add: eval_defs example_defs upt_rec)
  have vb: "nav_queue_pos lost_entries = 0"
    "(navigation_queue lost_entries)[Suc 0 := anchor_lost\<lparr>doc := resolve_doc (env lost_entries) anchor_lost\<rparr>]
       = [anchor_b, anchor_lost]"
    by (simp_all add: lost_entries_def lost_docs_def anchor_lost_def resolve_doc_def DOC_VALID_def
        utils_str_equal_def doc_file_name_def doc_a_def)
  have vf: "nav_queue_pos gone_entries = 1"
    "take 0 (navigation_queue gone_entries) @ drop 1 (navigation_queue gone_entries) = [anchor_a]"
    by (simp_all add: gone_entries_def)
  from invalidated_anchor_navigation [OF z(1), of plain_ext lost_entries] hb gb vb
  have b: "nav_queue_pos (go_back_step plain_ext lost_entries) = 1
      \<and> navigation_queue (go_back_step plain_ext lost_entries) = [anchor_b, anchor_lost]"
    by simp
  from invalidated_anchor_navigation [OF z(2), of plain_ext gone_entries] hf gf vf
  have f: "navigation_queue (navqueue_go_forward plain_ext gone_entries) = [anchor_a]
      \<and> caret (env (navqueue_go_forward plain_ext gone_entries)) = caret (env gone_entries)"
    by simp
  from z hb hf gb gf b f show ?thesis by simp
qed

section \<open>Recording the same position twice\<close>

lemma queue_pos_matches_again:
  assumes "queue_pos_matches E s k d p = (True, s1)"
  shows "queue_pos_matches E s1 k d p = (True, s1)"
proof -
  let ?q = "navigation_queue s"
  let ?r = "refresh_anchor E (env s) (?q ! k)"
  from queue_pos_matches_cases [of E s k d p] assms
  have k: "k < length ?q" and fl: "file' (?q ! k) = doc_file_name (env s) d"
    and p: "pos ?r = p" and s1: "s1 = s\<lparr>navigation_queue := ?q[k := ?r]\<rparr>"
    by auto
  have nth: "navigation_queue s1 ! k = ?r" using k s1 by simp
  have e: "env s1 = env s" using s1 by simp
  have "refresh_anchor E (env s1) (navigation_queue s1 ! k) = ?r"
    by (simp add: nth e refresh_anchor_idem)
  moreover have "s1\<lparr>navigation_queue := (navigation_queue s1)[k := ?r]\<rparr> = s1"
    using s1 by simp
  moreover have "length (navigation_queue s1) = length ?q" using s1 by simp
  ultimately show ?thesis
    using k fl p nth e
    by (simp add: queue_pos_matches_def Let_def utils_str_equal_def)
qed

lemma queue_pos_matches_ids:
  assumes "queue_pos_matches E s k d p = (m, s1)"
  shows "id' ` set (navigation_queue s1) \<subseteq> insert 0 (id' ` set (navigation_queue s))"
proof -
  let ?q = "navigation_queue s"
  let ?r = "refresh_anchor E (env s) (?q ! k)"
  from queue_pos_matches_cases [of E s k d p] assms
  have "s1 = s \<or> (k < length ?q \<and> s1 = s\<lparr>navigation_queue := ?q[k := ?r]\<rparr>)"
    by auto
  then show ?thesis
  proof
    assume "s1 = s"
    then show ?thesis by auto
  next
    assume h: "k < length ?q \<and> s1 = s\<lparr>navigation_queue := ?q[k := ?r]\<rparr>"
    then have "set (navigation_queue s1) \<subseteq> insert ?r (set ?q)"
      using set_update_subset_insert [of ?q k ?r] by simp
    moreover have "id' ?r = 0 \<or> id' ?r \<in> id' ` set ?q"
      using refresh_anchor_id [of E "env s" "?q ! k"] h by (auto simp: nth_mem)
    ultimately show ?thesis by auto
  qed
qed

lemma refresh_anchor_tagged:
  assumes "doc a = Some d" and "documents w d = Some D" and "file_name D = file' a"
    and "id' a = 0 \<or> indicator D (pos a) = id' a"
  shows "refresh_anchor E w a = a"
proof -
  have "resolve_doc w a = Some d"
    using assms(1-3)
    by (simp add: resolve_doc_def DOC_VALID_def utils_str_equal_def doc_file_name_def)
  moreover have "a\<lparr>doc := Some d\<rparr> = a" using assms(1) by simp
  moreover have "relocate E D a = a"
    using assms(4) by (auto simp: relocate_def)
  ultimately show ?thesis
    using assms(2) by (simp add: refresh_anchor_unfold)
qed

lemma refresh_update_ids:
  assumes "i < length q"
  shows "id' ` set (q[i := refresh_anchor E w (q ! i)]) \<subseteq> insert 0 (id' ` set q)"
proof -
  have "set (q[i := refresh_anchor E w (q ! i)]) \<subseteq> insert (refresh_anchor E w (q ! i)) (set q)"
    by (rule set_update_subset_insert)
  moreover have "id' (refresh_anchor E w (q ! i)) = 0 \<or> id' (refresh_anchor E w (q ! i)) \<in> id' ` set q"
    using refresh_anchor_id [of E w "q ! i"] assms by (auto simp: nth_mem)
  ultimately show ?thesis by auto
qed

lemma ids_issued_subset:
  assumes "ids_issued s" and "counter s' = counter s"
    and "id' ` set (navigation_queue s') \<subseteq> insert 0 (id' ` set (navigation_queue s))"
  shows "ids_issued s'"
  unfolding ids_issued_def
proof
  fix a assume "a \<in> set (navigation_queue s')"
  with assms(3) have "id' a = 0 \<or> (\<exists>b \<in> set (navigation_queue s). id' a = id' b)" by auto
  with assms(1,2) show "unat (id' a) \<le> unat (counter s')"
    by (auto simp: ids_issued_def)
qed

lemma ids_issued_add_position:
  assumes "ids_issued s" and "nav_queue_pos s \<le> length (navigation_queue s)"
    and "unat (counter s) < 2 ^ 32 - 1"
    and "navqueue_add_position E s d p = Some s'"
  shows "ids_issued s' \<and> unat (counter s') \<le> unat (counter s) + 1"
proof (cases "doc_file_name (env s) d")
  case None
  with assms show ?thesis by (simp add: add_position_no_file)
next
  case (Some f)
  obtain m s1 where m: "queue_pos_matches E s (nav_queue_pos s) d p = (m, s1)"
    by (cases "queue_pos_matches E s (nav_queue_pos s) d p")
  note fields = queue_pos_matches_fields [OF m]
  have i1: "ids_issued s1"
    using assms(1) fields(3) queue_pos_matches_ids [OF m] by (rule ids_issued_subset)
  show ?thesis
  proof (cases m)
    case True
    with m Some have "navqueue_add_position E s d p = Some s1"
      by (simp add: add_position_match)
    with assms(4) i1 fields show ?thesis by simp
  next
    case False
    with m have m0: "queue_pos_matches E s (nav_queue_pos s) d p = (False, s1)" by simp
    let ?a = "\<lparr>file' = Some f, doc = Some d, id' = counter s + 1, pos = p\<rparr>"
    from add_position_push [OF Some m0 assms(2)] assms(4)
    have q: "navigation_queue s' =
        take MAX_NAVQUEUE_LENGTH (?a # drop (nav_queue_pos s) (navigation_queue s1))"
      and c: "counter s' = counter s + 1" by auto
    have u: "unat (counter s + 1) = unat (counter s) + 1"
      using assms(3) by (simp add: unat_word_ariths)
    have sub: "set (navigation_queue s') \<subseteq> insert ?a (set (navigation_queue s1))"
      using set_take_subset [of MAX_NAVQUEUE_LENGTH
          "?a # drop (nav_queue_pos s) (navigation_queue s1)"]
        set_drop_subset [of "nav_queue_pos s" "navigation_queue s1"] q
      by auto
    have "unat (id' a) \<le> unat (counter s')" if "a \<in> set (navigation_queue s')" for a
    proof -
      from that sub have "a = ?a \<or> a \<in> set (navigation_queue s1)" by auto
      then show ?thesis
      proof
        assume "a = ?a"
        with c show ?thesis by simp
      next
        assume "a \<in> set (navigation_queue s1)"
        with i1 have "unat (id' a) \<le> unat (counter s1)" by (simp add: ids_issued_def)
        with fields(3) c u show ?thesis by simp
      qed
    qed
    with c u show ?thesis by (simp add: ids_issued_def)
  qed
qed

lemma ids_issued_go_back_step:
  assumes "ids_issued s" and "nav_queue_pos s \<le> length (navigation_queue s)"
  shows "ids_issued (go_back_step E s) \<and> counter (go_back_step E s) = counter s"
proof (cases "navigation_queue s = [] \<or> nav_queue_pos s \<ge> length (navigation_queue s) - 1")
  case True
  with assms show ?thesis by (simp add: go_back_step_none)
next
  case False
  then have ne: "navigation_queue s \<noteq> []"
    and lt: "nav_queue_pos s < length (navigation_queue s) - 1" by auto
  then have i: "nav_queue_pos s + 1 < length (navigation_queue s)" by simp
  show ?thesis
  proof (cases "fst (goto_anchor E (env s) (navigation_queue s ! (nav_queue_pos s + 1)))")
    case True
    note r = go_back_step_done [OF ne lt True]
    have "counter (go_back_step E s) = counter s" by (simp add: r)
    moreover have "id' ` set (navigation_queue (go_back_step E s))
        \<subseteq> insert 0 (id' ` set (navigation_queue s))"
      using refresh_update_ids [OF i, of E "env s"] by (simp add: r)
    ultimately show ?thesis using assms(1) by (auto intro: ids_issued_subset)
  next
    case False
    note r = go_back_step_purged [OF ne lt False]
    have "counter (go_back_step E s) = counter s" by (simp add: r)
    moreover have "id' ` set (navigation_queue (go_back_step E s))
        \<subseteq> insert 0 (id' ` set (navigation_queue s))"
      using set_take_subset [of "Suc (nav_queue_pos s)" "navigation_queue s"]
        set_drop_subset [of "Suc (Suc (nav_queue_pos s))" "navigation_queue s"]
      by (auto simp: r)
    ultimately show ?thesis using assms(1) by (auto intro: ids_issued_subset)
  qed
qed

lemma ids_issued_go_forward:
  assumes "ids_issued s"
  shows "ids_issued (navqueue_go_forward E s) \<and> counter (navqueue_go_forward E s) = counter s"
proof (cases "nav_queue_pos s < 1 \<or> nav_queue_pos s \<ge> length (navigation_queue s)")
  case True
  with assms show ?thesis by (simp add: navqueue_go_forward_none)
next
  case False
  then have ge: "1 \<le> nav_queue_pos s" and lt: "nav_queue_pos s < length (navigation_queue s)"
    by auto
  then have i: "nav_queue_pos s - 1 < length (navigation_queue s)" by simp
  show ?thesis
  proof (cases "fst (goto_anchor E (env s) (navigation_queue s ! (nav_queue_pos s - 1)))")
    case True
    note r = navqueue_go_forward_done [OF ge lt True]
    have "counter (navqueue_go_forward E s) = counter s" by (simp add: r)
    moreover have "id' ` set (navigation_queue (navqueue_go_forward E s))
        \<subseteq> insert 0 (id' ` set (navigation_queue s))"
      using refresh_update_ids [OF i, of E "env s"] by (simp add: r)
    ultimately show ?thesis using assms(1) by (auto intro: ids_issued_subset)
  next
    case False
    note r = navqueue_go_forward_purged [OF ge lt False]
    have "counter (navqueue_go_forward E s) = counter s" by (simp add: r)
    moreover have "id' ` set (navigation_queue (navqueue_go_forward E s))
        \<subseteq> insert 0 (id' ` set (navigation_queue s))"
      using set_take_subset [of "nav_queue_pos s - Suc 0" "navigation_queue s"]
        set_drop_subset [of "nav_queue_pos s" "navigation_queue s"]
      by (auto simp: r)
    ultimately show ?thesis using assms(1) by (auto intro: ids_issued_subset)
  qed
qed

lemma ids_issued_perform:
  assumes "ids_issued s" and "queue_inv s" and "unat (counter s) < 2 ^ 32 - 1"
    and "perform E s r = Some s'"
  shows "ids_issued s' \<and> unat (counter s') \<le> unat (counter s) + 1"
proof -
  from assms(2) have le: "nav_queue_pos s \<le> length (navigation_queue s)"
    by (simp add: queue_inv_def)
  show ?thesis
  proof (cases r)
    case (Record d p)
    with assms(4) ids_issued_add_position [OF assms(1) le assms(3)] show ?thesis by simp
  next
    case Back
    show ?thesis
    proof (cases "document_get_current (env s)")
      case None
      with Back assms(4) have "s' = go_back_step E s" by (simp add: navqueue_go_back_def)
      with ids_issued_go_back_step [OF assms(1) le, of E] show ?thesis by simp
    next
      case (Some d)
      then obtain D where D: "documents (env s) d = Some D"
        using document_get_current_valid by blast
      from queue_inv_add_position [OF assms(2), of E d "current_position D"] obtain s1 where
        a: "navqueue_add_position E s d (current_position D) = Some s1" and "queue_inv s1"
        by blast
      then have le1: "nav_queue_pos s1 \<le> length (navigation_queue s1)"
        by (simp add: queue_inv_def)
      from ids_issued_add_position [OF assms(1) le assms(3) a]
      have i1: "ids_issued s1" and c1: "unat (counter s1) \<le> unat (counter s) + 1" by auto
      from Back Some D a assms(4) have "s' = go_back_step E s1"
        by (simp add: navqueue_go_back_def)
      with ids_issued_go_back_step [OF i1 le1, of E] c1 show ?thesis by simp
    qed
  next
    case Forward
    with assms(4) ids_issued_go_forward [OF assms(1), of E] show ?thesis by auto
  next
    case (Remove f)
    show ?thesis
    proof (cases f)
      case None
      with Remove assms show ?thesis by (simp add: navqueue_remove_file_NULL)
    next
      case (Some n)
      with Remove assms(4) have s': "s' = navqueue_remove_file E s (Some n)" by simp
      have "ids_issued s'"
        using assms(1) by (rule ids_issued_subset) (auto simp: s' navqueue_remove_file_result)
      then show ?thesis by (simp add: s' navqueue_remove_file_result)
    qed
  next
    case (Edit w)
    with assms show ?thesis by (auto simp: ids_issued_def)
  qed
qed

lemma ids_issued_run:
  "ids_issued s \<Longrightarrow> queue_inv s \<Longrightarrow> unat (counter s) + length rs < 2 ^ 32 \<Longrightarrow>
   run E s rs = Some s' \<Longrightarrow>
   ids_issued s' \<and> queue_inv s' \<and> unat (counter s') \<le> unat (counter s) + length rs"
proof (induction rs arbitrary: s)
  case Nil
  then show ?case by simp
next
  case (Cons r rs)
  from queue_inv_perform [OF Cons.prems(2), of E r] obtain s1 where
    p: "perform E s r = Some s1" and q1: "queue_inv s1" by blast
  from Cons.prems(3) have "unat (counter s) < 2 ^ 32 - 1" by simp
  from ids_issued_perform [OF Cons.prems(1,2) this p]
  have i1: "ids_issued s1" and c1: "unat (counter s1) \<le> unat (counter s) + 1" by auto
  from c1 Cons.prems(3) have b: "unat (counter s1) + length rs < 2 ^ 32" by simp
  from Cons.prems(4) p have "run E s1 rs = Some s'" by simp
  from Cons.IH [OF i1 q1 b this] c1 show ?case by simp
qed

lemma ids_issued_fresh:
  assumes "ids_issued s" and "unat (counter s) < 2 ^ 32 - 1"
  shows "\<forall>a \<in> set (navigation_queue s). id' a \<noteq> counter s + 1"
proof
  fix a assume "a \<in> set (navigation_queue s)"
  with assms(1) have "unat (id' a) \<le> unat (counter s)" by (simp add: ids_issued_def)
  moreover have "unat (counter s + 1) = unat (counter s) + 1"
    using assms(2) by (simp add: unat_word_ariths)
  ultimately show "id' a \<noteq> counter s + 1" by auto
qed

lemma reachable_fresh:
  assumes "run E (navqueue_init w) rs = Some s" and "length rs < 2 ^ 32 - 1"
  shows "nav_queue_pos s \<le> length (navigation_queue s)
    \<and> (\<forall>a \<in> set (navigation_queue s). id' a \<noteq> counter s + 1)"
proof -
  have "ids_issued (navqueue_init w)" by (simp add: ids_issued_def navqueue_init_def)
  moreover have "unat (counter (navqueue_init w)) + length rs < 2 ^ 32"
    using assms(2) by (simp add: navqueue_init_def)
  ultimately have "ids_issued s \<and> queue_inv s
      \<and> unat (counter s) \<le> unat (counter (navqueue_init w)) + length rs"
    using queue_inv_init assms(1) by (intro ids_issued_run)
  with assms(2) ids_issued_fresh [of s] show ?thesis
    by (simp add: queue_inv_def navqueue_init_def)
qed

text \<open>
  C5. Recording the same position of the same document twice in a row, with
  the documents untouched in between: the second call returns the state the
  first call left, so the queue length and the position are unchanged. The
  queue is taken with its position at most its length and with no anchor that
  already has the id the counter gives out next (ids are not reused).
\<close>

theorem record_position_twice:
  assumes "nav_queue_pos s \<le> length (navigation_queue s)"
    and "\<forall>a \<in> set (navigation_queue s). id' a \<noteq> counter s + 1"
  shows "\<exists>s1 s2. navqueue_add_position E s d p = Some s1
           \<and> navqueue_add_position E s1 d p = Some s2
           \<and> length (navigation_queue s2) = length (navigation_queue s1)
           \<and> nav_queue_pos s2 = nav_queue_pos s1
           \<and> s2 = s1"
proof (cases "doc_file_name (env s) d")
  case None
  then show ?thesis by (simp add: add_position_no_file)
next
  case (Some f)
  obtain m s' where m: "queue_pos_matches E s (nav_queue_pos s) d p = (m, s')"
    by (cases "queue_pos_matches E s (nav_queue_pos s) d p")
  note fields = queue_pos_matches_fields [OF m]
  show ?thesis
  proof (cases m)
    case True
    with m have m1: "queue_pos_matches E s (nav_queue_pos s) d p = (True, s')" by simp
    from Some m1 have first: "navqueue_add_position E s d p = Some s'"
      by (simp add: add_position_match)
    from queue_pos_matches_again [OF m1] fields
    have "queue_pos_matches E s' (nav_queue_pos s') d p = (True, s')" by simp
    moreover from Some fields have "doc_file_name (env s') d \<noteq> None" by simp
    ultimately have "navqueue_add_position E s' d p = Some s'"
      by (rule add_position_match [rotated])
    with first show ?thesis by simp
  next
    case False
    with m have m0: "queue_pos_matches E s (nav_queue_pos s) d p = (False, s')" by simp
    let ?c = "counter s + 1"
    let ?a = "\<lparr>file' = Some f, doc = Some d, id' = ?c, pos = p\<rparr>"
    from add_position_push [OF Some m0 assms(1)] obtain s1 where
      first: "navqueue_add_position E s d p = Some s1"
      and q1: "navigation_queue s1 =
          take MAX_NAVQUEUE_LENGTH (?a # drop (nav_queue_pos s) (navigation_queue s'))"
      and n1: "nav_queue_pos s1 = 0"
      and sf: "same_files (env s) (env s1)"
      and tag: "?c \<notin> id' ` set (navigation_queue s') \<longrightarrow>
          (\<exists>D'. documents (env s1) d = Some D' \<and> indicator D' p = ?c)"
      by blast
    from Some obtain D where D: "documents (env s) d = Some D" and fD: "file_name D = Some f"
      by (auto simp: doc_file_name_def split: option.splits)
    from same_files_Some [OF sf D] fD obtain D1 where
      D1: "documents (env s1) d = Some D1" and fD1: "file_name D1 = Some f" by auto
    have f1: "doc_file_name (env s1) d = Some f"
      using D1 fD1 by (simp add: doc_file_name_def)
    have hd1: "navigation_queue s1 = ?a # take (MAX_NAVQUEUE_LENGTH - 1)
        (drop (nav_queue_pos s) (navigation_queue s'))"
      using q1 by (simp add: MAX_NAVQUEUE_LENGTH_def take_Cons')
    have tagged: "?c = 0 \<or> indicator D1 p = ?c"
    proof (cases "?c = 0")
      case True
      then show ?thesis by simp
    next
      case False
      with assms(2) queue_pos_matches_ids [OF m0]
      have "?c \<notin> id' ` set (navigation_queue s')" by auto
      with tag D1 show ?thesis by auto
    qed
    have "refresh_anchor E (env s1) ?a = ?a"
      using refresh_anchor_tagged [of ?a d "env s1" D1 E] D1 fD1 tagged by simp
    moreover have "s1\<lparr>navigation_queue := (navigation_queue s1)[0 := ?a]\<rparr> = s1"
      using hd1 by simp
    ultimately have "queue_pos_matches E s1 (nav_queue_pos s1) d p = (True, s1)"
      using hd1 n1 f1
      by (simp add: queue_pos_matches_def [of E s1] Let_def utils_str_equal_def)
    with f1 have "navqueue_add_position E s1 d p = Some s1"
      by (simp add: add_position_match)
    with first show ?thesis by simp
  qed
qed

theorem record_position_twice_witness:
  "nav_queue_pos two_entries \<le> length (navigation_queue two_entries)
   \<and> id' anchor_b \<noteq> counter two_entries + 1 \<and> id' anchor_a \<noteq> counter two_entries + 1
   \<and> set (navigation_queue two_entries) = {anchor_b, anchor_a}
   \<and> map_option navigation_queue (navqueue_add_position plain_ext two_entries 0 77)
       = Some [\<lparr>file' = Some ''a.c'', doc = Some 0, id' = 3, pos = 77\<rparr>, anchor_b, anchor_a]
   \<and> (\<exists>s1. navqueue_add_position plain_ext two_entries 0 77 = Some s1
          \<and> navqueue_add_position plain_ext s1 0 77 = Some s1)"
proof -
  have h1: "nav_queue_pos two_entries \<le> length (navigation_queue two_entries)"
    by (simp add: two_entries_def)
  have ids: "id' anchor_b \<noteq> counter two_entries + 1" "id' anchor_a \<noteq> counter two_entries + 1"
    "set (navigation_queue two_entries) = {anchor_b, anchor_a}"
    by (simp_all add: two_entries_def anchor_a_def anchor_b_def)
  then have h2: "\<forall>a \<in> set (navigation_queue two_entries). id' a \<noteq> counter two_entries + 1"
    by simp
  have q: "map_option navigation_queue (navqueue_add_position plain_ext two_entries 0 77)
       = Some [\<lparr>file' = Some ''a.c'', doc = Some 0, id' = 3, pos = 77\<rparr>, anchor_b, anchor_a]"
    by (simp add: eval_defs example_defs)
  from record_position_twice [OF h1 h2, of plain_ext 0 77] h1 ids q show ?thesis
    by auto
qed

end
